theory Spec2Isabelle
  imports Complex_Main "HOL-Library.Sublist"
begin

text \<open>
  A shallow embedding of the documentation generator: the repository handler
  (\<open>internal/repo\<close>), the file selector and content extractor (\<open>internal/content\<close>), the
  embedding annotator (\<open>internal/embedding\<close>) and the loop of \<open>generateDocs\<close> that ties
  them together. Go strings are byte strings and are modelled as \<open>string\<close> (a list of
  \<open>char\<close>, one per byte); a Go slice is a list, a \<open>nil\<close> slice the empty list unless the
  source tests for \<open>nil\<close>; a function that returns \<open>(value, error)\<close> returns a sum, with
  \<open>Inl\<close> for the error.
\<close>

section \<open>Paths (the path/filepath functions the sources call)\<close>

text \<open>
  \<open>filepath.Join\<close> of a clean directory path and the name of one of its entries: the
  two joined by one separator. \<open>filepath.Walk\<close> builds every path it visits this way.
\<close>

definition Join :: "string \<Rightarrow> string \<Rightarrow> string" where
  "Join dir name = dir @ ''/'' @ name"

text \<open>
  \<open>filepath.Rel\<close> on the paths the program hands it, which are the root itself or
  lie below it: the root gives \<open>.\<close>, a path below the root gives the part after the
  root's separator. Any other target is reported as the error (\<open>None\<close>); the program
  never produces one, since every path comes out of a walk of the root.
\<close>

definition Rel :: "string \<Rightarrow> string \<Rightarrow> string option" where
  "Rel basepath targpath =
     (if targpath = basepath then Some ''.''
      else if prefix (basepath @ ''/'') targpath
        then Some (drop (length basepath + 1) targpath)
        else None)"

text \<open>
  \<open>filepath.Base\<close>: the empty path gives \<open>.\<close>; trailing separators are stripped; the
  result is what follows the last separator, or \<open>/\<close> when nothing is left.
\<close>

definition Base :: "string \<Rightarrow> string" where
  "Base path =
     (if path = [] then ''.''
      else let stripped = rev (dropWhile (\<lambda>c. c = CHR ''/'') (rev path));
               elem = rev (takeWhile (\<lambda>c. c \<noteq> CHR ''/'') (rev stripped))
           in if elem = [] then ''/'' else elem)"

text \<open>
  \<open>filepath.Ext\<close>: the suffix of the last path element that starts at its last dot,
  empty when that element has no dot.
\<close>

definition Ext :: "string \<Rightarrow> string" where
  "Ext path =
     (let elem = rev (takeWhile (\<lambda>c. c \<noteq> CHR ''/'') (rev path))
      in if CHR ''.'' \<in> set elem
         then CHR ''.'' # rev (takeWhile (\<lambda>c. c \<noteq> CHR ''.'') (rev elem))
         else [])"

section \<open>File selector (ContentProcessor.GetFiles)\<close>

record ContentProcessor =
  repoPath :: string
  includeDirs :: "string list"
  excludeDirs :: "string list"
  fileTypes :: "string list"

text \<open>
  \<open>NewContentProcessor\<close> replaces a \<open>nil\<close> exclusion list and a \<open>nil\<close> list of file types
  (\<open>None\<close> here) by its defaults; an include list is only ever tested for its length.
\<close>

definition NewContentProcessor ::
  "string \<Rightarrow> string list \<Rightarrow> string list option \<Rightarrow> string list option \<Rightarrow> ContentProcessor" where
  "NewContentProcessor rp inc exc fts =
     \<lparr>repoPath = rp,
      includeDirs = inc,
      excludeDirs = (case exc of
          None \<Rightarrow> [''node_modules'', ''.git'', ''__pycache__'', ''venv'', ''.venv'', ''.github'',
                    ''.vscode'', ''.idea'', ''.DS_Store'', ''.env'', ''.env.local'',
                    ''.env.development'']
        | Some e \<Rightarrow> e),
      fileTypes = (case fts of None \<Rightarrow> [''.md''] | Some f \<Rightarrow> f)\<rparr>"

text \<open>
  The directory tree that \<open>filepath.Walk\<close> traverses. An entry is a file (anything
  that is not a directory), a directory with its entries in the order
  \<open>readDirNames\<close> returns them (the flag tells whether the directory can be listed), or
  an entry whose \<open>lstat\<close> fails. \<open>FileInfo\<close> carries the two fields of \<open>os.FileInfo\<close>
  that the callback reads.
\<close>

datatype fsnode = File string | Dir string bool "fsnode list" | Broken string

datatype FileInfo = FileInfo (Name: string) (IsDir: bool)

fun node_name :: "fsnode \<Rightarrow> string" where
  "node_name (File n) = n"
| "node_name (Dir n readable cs) = n"
| "node_name (Broken n) = n"

fun is_file :: "fsnode \<Rightarrow> bool" where
  "is_file (File n) = True"
| "is_file (Dir n readable cs) = False"
| "is_file (Broken n) = False"

text \<open>
  What a walk callback returns besides \<open>nil\<close> (\<open>None\<close>): \<open>filepath.SkipDir\<close>, or an
  error of the traversal.
\<close>

datatype walk_error = SkipDir | IOError

text \<open>
  The callback that \<open>GetFiles\<close> passes to \<open>filepath.Walk\<close>. The captured slice
  \<open>files\<close> is threaded through as state; \<open>err\<close> tells whether Walk reports an error
  for the entry (the callback then returns it without looking at \<open>info\<close>).
\<close>

definition walkFn ::
  "ContentProcessor \<Rightarrow> string \<Rightarrow> FileInfo \<Rightarrow> bool \<Rightarrow> string list
    \<Rightarrow> walk_error option \<times> string list" where
  "walkFn p path info err files =
     (if err then (Some IOError, files)
      else if IsDir info then
        (if Name info \<in> set (excludeDirs p) then (Some SkipDir, files)
         else if includeDirs p \<noteq> [] then
           (case Rel (repoPath p) path of
              None \<Rightarrow> (Some IOError, files)
            | Some relPath \<Rightarrow>
                if relPath \<noteq> ''.'' \<and>
                   \<not> list_ex (\<lambda>includeDir. prefix includeDir relPath) (includeDirs p)
                then (Some SkipDir, files)
                else (None, files))
         else (None, files))
      else if list_ex (\<lambda>fileType. suffix fileType path) (fileTypes p)
        then (None, files @ [path])
        else (None, files))"

text \<open>
  \<open>filepath.walk\<close> and the loop over a directory's names. A file is handed to the
  callback. A directory is listed first and handed to the callback together with the
  listing's error; Walk descends only when both are fine. In the loop, \<open>SkipDir\<close> from a
  directory (or from an entry whose \<open>lstat\<close> failed) only skips that entry; every other
  error, and \<open>SkipDir\<close> from a file, ends the loop and is returned.
\<close>

fun walk :: "ContentProcessor \<Rightarrow> string \<Rightarrow> fsnode \<Rightarrow> string list
              \<Rightarrow> walk_error option \<times> string list"
  and walk_names :: "ContentProcessor \<Rightarrow> string \<Rightarrow> fsnode list \<Rightarrow> string list
              \<Rightarrow> walk_error option \<times> string list"
where
  "walk p path (File n) files = walkFn p path (FileInfo n False) False files"
| "walk p path (Broken n) files = walkFn p path (FileInfo n False) True files"
| "walk p path (Dir n readable cs) files =
     (case walkFn p path (FileInfo n True) (\<not> readable) files of
        (Some e, fs) \<Rightarrow> (Some e, fs)
      | (None, fs) \<Rightarrow> if readable then walk_names p path cs fs else (None, fs))"
| "walk_names p path [] files = (None, files)"
| "walk_names p path (c # cs) files =
     (case walk p (Join path (node_name c)) c files of
        (None, fs) \<Rightarrow> walk_names p path cs fs
      | (Some e, fs) \<Rightarrow>
          if e = SkipDir \<and> \<not> is_file c then walk_names p path cs fs else (Some e, fs))"

text \<open>\<open>filepath.Walk\<close>: \<open>SkipDir\<close> that reaches the top is not an error.\<close>

definition Walk ::
  "ContentProcessor \<Rightarrow> string \<Rightarrow> fsnode \<Rightarrow> string list \<Rightarrow> walk_error option \<times> string list" where
  "Walk p rootPath t files =
     (case walk p rootPath t files of
        (Some SkipDir, fs) \<Rightarrow> (None, fs)
      | r \<Rightarrow> r)"

text \<open>
  \<open>GetFiles\<close> on the tree \<open>t\<close> found at \<open>repoPath\<close>: the files collected, or the error
  of the walk (and then no files).
\<close>

definition GetFiles :: "ContentProcessor \<Rightarrow> fsnode \<Rightarrow> walk_error + string list" where
  "GetFiles p t =
     (case Walk p (repoPath p) t [] of
        (None, files) \<Rightarrow> Inr files
      | (Some e, files) \<Rightarrow> Inl e)"

text \<open>The test the callback applies to a file's path.\<close>

definition type_match :: "ContentProcessor \<Rightarrow> string \<Rightarrow> bool" where
  "type_match p path = list_ex (\<lambda>fileType. suffix fileType path) (fileTypes p)"

text \<open>
  Names that a directory listing can hold: not empty, no separator, and neither of the
  two dot entries. \<open>entries_ok\<close> says that every entry below the root has such a name.
\<close>

definition valid_name :: "string \<Rightarrow> bool" where
  "valid_name n = (n \<noteq> [] \<and> CHR ''/'' \<notin> set n \<and> n \<noteq> ''.'' \<and> n \<noteq> ''..'')"

fun entries_ok :: "fsnode \<Rightarrow> bool" where
  "entries_ok (File n) = True"
| "entries_ok (Broken n) = True"
| "entries_ok (Dir n readable cs) = list_all (\<lambda>c. valid_name (node_name c) \<and> entries_ok c) cs"


fun readable_tree :: "fsnode \<Rightarrow> bool" where
  "readable_tree (File n) = True"
| "readable_tree (Broken n) = False"
| "readable_tree (Dir n readable cs) = (readable \<and> list_all readable_tree cs)"

text \<open>
  The files that lie beneath no directory whose name is excluded (the root counts as a
  directory), in the order of the walk; whether an entry is a directory with an excluded
  name; and the names of the directories of a tree.
\<close>

fun outside_excluded :: "string list \<Rightarrow> string \<Rightarrow> fsnode \<Rightarrow> string list"
  and outside_excluded_in :: "string list \<Rightarrow> string \<Rightarrow> fsnode list \<Rightarrow> string list" where
  "outside_excluded ex path (File n) = [path]"
| "outside_excluded ex path (Broken n) = []"
| "outside_excluded ex path (Dir n readable cs) =
     (if n \<in> set ex then [] else outside_excluded_in ex path cs)"
| "outside_excluded_in ex path [] = []"
| "outside_excluded_in ex path (c # cs) =
     outside_excluded ex (Join path (node_name c)) c @ outside_excluded_in ex path cs"

fun pruned :: "string list \<Rightarrow> fsnode \<Rightarrow> bool" where
  "pruned ex (File n) = False"
| "pruned ex (Broken n) = False"
| "pruned ex (Dir n readable cs) = (n \<in> set ex)"

fun dir_names :: "fsnode \<Rightarrow> string list" where
  "dir_names (File n) = []"
| "dir_names (Broken n) = []"
| "dir_names (Dir n readable cs) = n # concat (map dir_names cs)"

text \<open>
  Auxiliary notions for the proofs: the path below a directory spelled by a list of entry
  names; a path reached from \<open>path\<close> through directories none of which is excluded; and
  the two ways a selected file can relate to a non-empty include list.
\<close>

definition below :: "string list \<Rightarrow> string" where
  "below ns = concat (map (\<lambda>n. ''/'' @ n) ns)"

definition reach :: "ContentProcessor \<Rightarrow> string \<Rightarrow> string list \<Rightarrow> string \<Rightarrow> bool" where
  "reach p path ns f =
     (f = path @ below ns \<and> list_all valid_name ns \<and>
      (\<forall>n\<in>set (butlast ns). n \<notin> set (excludeDirs p)))"

definition include_ok :: "ContentProcessor \<Rightarrow> fsnode list \<Rightarrow> string \<Rightarrow> bool" where
  "include_ok p cs f =
     ((\<exists>n. File n \<in> set cs \<and> f = Join (repoPath p) n) \<or>
      (\<exists>rel. Rel (repoPath p) f = Some rel \<and> list_ex (\<lambda>d. prefix d rel) (includeDirs p)))"

section \<open>Repository handler (internal/repo/repo\_handler.go)\<close>

text \<open>
  The handler keeps the path of its temporary directory. The part of the disk that
  \<open>CloneRepo\<close> touches is modelled as a record: the temporary directories that exist, and
  for each populated directory the URL it was cloned from.
\<close>

record RepoHandler =
  tempDir :: string

record disk =
  dirs :: "string list"
  populated :: "(string \<times> string) list"

datatype clone_error = MkdirTempFailed | UnsupportedHost | CloneFailed

text \<open>
  \<open>CloneRepo\<close>, statement by statement. The two calls into the environment are
  parameters: \<open>mk\<close> is the outcome of \<open>os.MkdirTemp\<close> (the fresh path, or \<open>None\<close> when
  it fails) and \<open>cl\<close> tells whether \<open>git.PlainClone\<close> succeeds. An error return of the
  source (the empty string with an error) is \<open>Inl\<close>. A failed clone leaves the directory
  in place and unpopulated.
\<close>

definition CloneRepo ::
  "string option \<Rightarrow> bool \<Rightarrow> RepoHandler \<Rightarrow> disk \<Rightarrow> string
    \<Rightarrow> (clone_error + string) \<times> RepoHandler \<times> disk" where
  "CloneRepo mk cl h d repoURL =
     (case mk of
        None \<Rightarrow> (Inl MkdirTempFailed, h, d)
      | Some tmp \<Rightarrow>
          (let d1 = d\<lparr>dirs := dirs d @ [tmp]\<rparr>;
               h1 = h\<lparr>tempDir := tmp\<rparr>
           in if \<not> prefix ''https://github.com/'' repoURL \<and>
                 \<not> prefix ''https://gitlab.com/'' repoURL
              then (Inl UnsupportedHost, h1, d1)
              else if cl
                then (Inr tmp, h1, d1\<lparr>populated := populated d1 @ [(tmp, repoURL)]\<rparr>)
                else (Inl CloneFailed, h1, d1)))"

section \<open>Regular expressions (the part of Go's regexp package the extractor uses)\<close>

text \<open>
  The four patterns of the extractor are kept as syntax trees and run by one matcher.
  Go's matcher returns the leftmost match and, among the matches that start there, the
  one a backtracking search finds first. The matcher below is that search: \<open>ms r s\<close> lists
  the states in which \<open>r\<close> can stop when started in \<open>s\<close>, in the order in which
  backtracking tries them, so the head of the list is the match Go reports. A greedy
  repetition tries one more iteration before it tries to stop, a lazy one the other way
  round. An iteration that consumes nothing is not repeated; the patterns here repeat
  single characters only.

  Without the flag \<open>s\<close>, the dot matches every character but the newline. Go reads the
  text as UTF-8 and the dot takes a whole code point; the model runs on bytes. The
  literals and classes of the four patterns are ASCII, so both readings find the same
  matches and capture the same bytes.
\<close>

datatype cclass = Word | Space | AnyNotNL

fun in_class :: "cclass \<Rightarrow> char \<Rightarrow> bool" where
  "in_class Word c =
     (c \<in> set ''0123456789ABCDEFGHIJKLMNOPQRSTUVWXYZ_abcdefghijklmnopqrstuvwxyz'')"
| "in_class Space c = (c \<in> set [CHR 0x09, CHR 0x0A, CHR 0x0C, CHR 0x0D, CHR 0x20])"
| "in_class AnyNotNL c = (c \<noteq> CHR 0x0A)"

datatype regex =
    Lit string
  | Class cclass
  | Seq regex regex
  | Opt regex
  | Star regex
  | LazyStar regex
  | Group nat regex
  | BOL
  | EOL

definition Plus :: "regex \<Rightarrow> regex" where
  "Plus r = Seq r (Star r)"

text \<open>
  A state of the matcher: the character before the current position (for \<open>^\<close>), the
  text from the current position on, and the groups captured so far, latest first.
\<close>

record mstate =
  prev :: "char option"
  rest :: string
  caps :: "(nat \<times> string) list"

function ms :: "regex \<Rightarrow> mstate \<Rightarrow> mstate list" where
  "ms (Lit l) s =
     (if prefix l (rest s)
      then [s\<lparr>prev := (if l = [] then prev s else Some (last l)),
              rest := drop (length l) (rest s)\<rparr>]
      else [])"
| "ms (Class k) s =
     (case rest s of
        [] \<Rightarrow> []
      | c # cs \<Rightarrow> if in_class k c then [s\<lparr>prev := Some c, rest := cs\<rparr>] else [])"
| "ms (Seq a b) s = concat (map (ms b) (ms a s))"
| "ms (Opt a) s = ms a s @ [s]"
| "ms (Star a) s =
     concat (map (\<lambda>s'. if length (rest s') < length (rest s) then ms (Star a) s' else [])
                 (ms a s)) @ [s]"
| "ms (LazyStar a) s =
     s # concat (map (\<lambda>s'. if length (rest s') < length (rest s) then ms (LazyStar a) s' else [])
                     (ms a s))"
| "ms (Group n a) s =
     map (\<lambda>s'. s'\<lparr>caps := (n, take (length (rest s) - length (rest s')) (rest s)) # caps s'\<rparr>)
         (ms a s)"
| "ms BOL s = (if prev s = None \<or> prev s = Some (CHR 0x0A) then [s] else [])"
| "ms EOL s = (case rest s of [] \<Rightarrow> [s] | c # cs \<Rightarrow> if c = CHR 0x0A then [s] else [])"
  by pat_completeness auto
termination
  by (relation "measures [\<lambda>(r, s). size r, \<lambda>(r, s). length (rest s)]") auto

text \<open>
  The match that starts at the current position, if there is one; and the leftmost
  match: the first position, from the current one on, at which a match starts. The
  result of \<open>search\<close> is the text from the start of the match and the state at its end.
\<close>

definition match_here :: "regex \<Rightarrow> char option \<Rightarrow> string \<Rightarrow> mstate option" where
  "match_here r pv text =
     (case ms r \<lparr>prev = pv, rest = text, caps = []\<rparr> of [] \<Rightarrow> None | s' # _ \<Rightarrow> Some s')"

fun search :: "regex \<Rightarrow> char option \<Rightarrow> string \<Rightarrow> (string \<times> mstate) option" where
  "search r pv text =
     (case match_here r pv text of
        Some s' \<Rightarrow> Some (text, s')
      | None \<Rightarrow> (case text of [] \<Rightarrow> None | c # cs \<Rightarrow> search r (Some c) cs))"

text \<open>
  The slice of strings Go returns for a match: the matched text, then one string per
  group, empty for a group that took no part in the match.
\<close>

fun NumSubexp :: "regex \<Rightarrow> nat" where
  "NumSubexp (Group n a) = max n (NumSubexp a)"
| "NumSubexp (Seq a b) = max (NumSubexp a) (NumSubexp b)"
| "NumSubexp (Opt a) = NumSubexp a"
| "NumSubexp (Star a) = NumSubexp a"
| "NumSubexp (LazyStar a) = NumSubexp a"
| "NumSubexp (Lit l) = 0"
| "NumSubexp (Class k) = 0"
| "NumSubexp BOL = 0"
| "NumSubexp EOL = 0"

definition submatches :: "regex \<Rightarrow> string \<Rightarrow> mstate \<Rightarrow> string list" where
  "submatches r start s' =
     take (length start - length (rest s')) start #
     map (\<lambda>i. case map_of (caps s') i of None \<Rightarrow> [] | Some t \<Rightarrow> t) [1..<Suc (NumSubexp r)]"

text \<open>\<open>FindStringSubmatch\<close>: the leftmost match, or the empty slice.\<close>

definition FindStringSubmatch :: "regex \<Rightarrow> string \<Rightarrow> string list" where
  "FindStringSubmatch r text =
     (case search r None text of None \<Rightarrow> [] | Some (start, s') \<Rightarrow> submatches r start s')"

text \<open>
  \<open>FindAllStringSubmatch\<close> with \<open>n = -1\<close>: the successive matches, each search starting
  where the previous match ended. A match that ends where its search started is empty:
  it is dropped when the previous match ended at that very position, and the next search
  starts one character further on (Go steps over a whole code point there; the pattern
  of the fenced blocks, the only one run this way, has no empty match).
\<close>

fun allMatches :: "regex \<Rightarrow> char option \<Rightarrow> string \<Rightarrow> bool \<Rightarrow> string list list" where
  "allMatches r pv text after_match =
     (case search r pv text of
        None \<Rightarrow> []
      | Some (start, s') \<Rightarrow>
          if length (rest s') < length text
          then submatches r start s' # allMatches r (prev s') (rest s') True
          else (if after_match then [] else [submatches r start s']) @
               (case text of [] \<Rightarrow> [] | c # cs \<Rightarrow> allMatches r (Some c) cs False))"

definition FindAllStringSubmatch :: "regex \<Rightarrow> string \<Rightarrow> string list list" where
  "FindAllStringSubmatch r text = allMatches r None text False"

section \<open>Content extractor (ProcessFile, processMarkdown, processCode)\<close>

record CodeBlock =
  Language :: string
  Code :: string
  Embedding :: "real list option"

record Content =
  Title :: string
  Description :: string
  Source :: string
  Content :: string
  CodeBlocks :: "CodeBlock list"
  Type :: string

text \<open>
  \<open>strings.TrimSpace\<close> removes the leading and the trailing white space, as Unicode
  defines it. On the bytes of a string, a white-space character is one of the six ASCII
  ones or the UTF-8 encoding of one of the others (U+0085, U+00A0, U+1680, U+2000 to
  U+200A, U+2028, U+2029, U+202F, U+205F, U+3000).
\<close>

definition unicodeSpaces :: "string list" where
  "unicodeSpaces =
     [[CHR 0x09], [CHR 0x0A], [CHR 0x0B], [CHR 0x0C], [CHR 0x0D], [CHR 0x20],
      [CHR 0xC2, CHR 0x85], [CHR 0xC2, CHR 0xA0], [CHR 0xE1, CHR 0x9A, CHR 0x80],
      [CHR 0xE2, CHR 0x80, CHR 0x80], [CHR 0xE2, CHR 0x80, CHR 0x81],
      [CHR 0xE2, CHR 0x80, CHR 0x82], [CHR 0xE2, CHR 0x80, CHR 0x83],
      [CHR 0xE2, CHR 0x80, CHR 0x84], [CHR 0xE2, CHR 0x80, CHR 0x85],
      [CHR 0xE2, CHR 0x80, CHR 0x86], [CHR 0xE2, CHR 0x80, CHR 0x87],
      [CHR 0xE2, CHR 0x80, CHR 0x88], [CHR 0xE2, CHR 0x80, CHR 0x89],
      [CHR 0xE2, CHR 0x80, CHR 0x8A], [CHR 0xE2, CHR 0x80, CHR 0xA8],
      [CHR 0xE2, CHR 0x80, CHR 0xA9], [CHR 0xE2, CHR 0x80, CHR 0xAF],
      [CHR 0xE2, CHR 0x81, CHR 0x9F], [CHR 0xE3, CHR 0x80, CHR 0x80]]"

function trimLeftSpace :: "string \<Rightarrow> string" where
  "trimLeftSpace s =
     (case find (\<lambda>sp. prefix sp s) unicodeSpaces of
        None \<Rightarrow> s
      | Some sp \<Rightarrow> trimLeftSpace (drop (length sp) s))"
  by pat_completeness auto
termination
proof (relation "measure length")
  show "wf (measure length)" by simp
next
  fix s sp
  assume "find (\<lambda>sp. prefix sp s) unicodeSpaces = Some sp"
  then have "sp \<in> set unicodeSpaces" and "prefix sp s"
    by (auto simp: find_Some_iff)
  then have "sp \<noteq> []" and "prefix sp s" by (auto simp: unicodeSpaces_def)
  then have "s \<noteq> []" by auto
  with \<open>sp \<noteq> []\<close> show "(drop (length sp) s, s) \<in> measure length" by simp
qed

function trimRightSpace :: "string \<Rightarrow> string" where
  "trimRightSpace s =
     (case find (\<lambda>sp. suffix sp s) unicodeSpaces of
        None \<Rightarrow> s
      | Some sp \<Rightarrow> trimRightSpace (take (length s - length sp) s))"
  by pat_completeness auto
termination
proof (relation "measure length")
  show "wf (measure length)" by simp
next
  fix s sp
  assume "find (\<lambda>sp. suffix sp s) unicodeSpaces = Some sp"
  then have "sp \<in> set unicodeSpaces" and "suffix sp s"
    by (auto simp: find_Some_iff)
  then have "sp \<noteq> []" and "suffix sp s" by (auto simp: unicodeSpaces_def)
  then have "s \<noteq> []" by auto
  with \<open>sp \<noteq> []\<close> show "(take (length s - length sp) s, s) \<in> measure length" by simp
qed

definition TrimSpace :: "string \<Rightarrow> string" where
  "TrimSpace s = trimRightSpace (trimLeftSpace s)"

text \<open>\<open>strings.TrimPrefix\<close>.\<close>

definition TrimPrefix :: "string \<Rightarrow> string \<Rightarrow> string" where
  "TrimPrefix s pre = (if prefix pre s then drop (length pre) s else s)"

text \<open>
  The lines a \<open>bufio.Scanner\<close> yields: the text is cut at each newline, one carriage
  return before the newline is dropped, and what follows the last newline is a line of
  its own unless it is empty (every line is taken to be shorter than the scanner's
  buffer of 64 KiB; a longer one would end the scan).
\<close>

definition dropCR :: "string \<Rightarrow> string" where
  "dropCR l = (if l \<noteq> [] \<and> last l = CHR 0x0D then butlast l else l)"

fun scan_from :: "string \<Rightarrow> string \<Rightarrow> string list" where
  "scan_from acc [] = (if acc = [] then [] else [dropCR acc])"
| "scan_from acc (c # cs) =
     (if c = CHR 0x0A then dropCR acc # scan_from [] cs else scan_from (acc @ [c]) cs)"

definition ScanLines :: "string \<Rightarrow> string list" where
  "ScanLines content = scan_from [] content"

text \<open>
  The patterns, as written in the source:
  \<^item> the title: \<^verbatim>\<open>(?m)^#\s+(.+)$\<close>;
  \<^item> a fenced block: three backquotes, \<^verbatim>\<open>(\w+)?\n(.*?)\n\<close>, three backquotes;
  \<^item> a Python docstring: three double quotes, \<^verbatim>\<open>(.*?)\<close>, three double quotes;
  \<^item> a block comment: \<^verbatim>\<open>/\*\*(.*?)\*/\<close>.
\<close>

definition fence :: string where
  "fence = [CHR 0x60, CHR 0x60, CHR 0x60]"

definition titleRegex :: regex where
  "titleRegex =
     Seq BOL (Seq (Lit ''#'') (Seq (Plus (Class Space))
       (Seq (Group 1 (Plus (Class AnyNotNL))) EOL)))"

definition codeBlockRegex :: regex where
  "codeBlockRegex =
     Seq (Lit fence)
       (Seq (Opt (Group 1 (Plus (Class Word))))
         (Seq (Lit [CHR 0x0A])
           (Seq (Group 2 (LazyStar (Class AnyNotNL)))
             (Lit (CHR 0x0A # fence)))))"

definition docstringRegex :: regex where
  "docstringRegex =
     Seq (Lit [CHR 0x22, CHR 0x22, CHR 0x22])
       (Seq (Group 1 (LazyStar (Class AnyNotNL))) (Lit [CHR 0x22, CHR 0x22, CHR 0x22]))"

definition commentRegex :: regex where
  "commentRegex = Seq (Lit ''/**'') (Seq (Group 1 (LazyStar (Class AnyNotNL))) (Lit ''*/''))"

text \<open>\<open>processMarkdown\<close>: title, description and the fenced blocks.\<close>

definition markdownDescription :: "string \<Rightarrow> string" where
  "markdownDescription content =
     (case find (\<lambda>line. line \<noteq> [] \<and> \<not> prefix ''#'' line) (ScanLines content) of
        None \<Rightarrow> ''No description available''
      | Some line \<Rightarrow> TrimSpace line)"

definition blockOfMatch :: "string list \<Rightarrow> CodeBlock" where
  "blockOfMatch m =
     \<lparr>Language = (if length m > 1 \<and> m ! 1 \<noteq> [] then m ! 1 else ''text''),
      Code = (if length m > 2 then m ! 2 else []),
      Embedding = None\<rparr>"

definition processMarkdown :: "string \<Rightarrow> string \<Rightarrow> Content" where
  "processMarkdown content filePath =
     (let titleMatch = FindStringSubmatch titleRegex content;
          title = (if length titleMatch > 1 then titleMatch ! 1 else Base filePath);
          description = markdownDescription content;
          codeBlockMatches = FindAllStringSubmatch codeBlockRegex content;
          codeBlocks = map blockOfMatch codeBlockMatches
      in \<lparr>Title = title, Description = description, Source = filePath, Content = content,
          CodeBlocks = codeBlocks, Type = ''markdown''\<rparr>)"

text \<open>
  For the statements about \<open>processMarkdown\<close>: an input written as a sequence of fenced
  blocks, each with the prose before it, its info string and its body, followed by a last
  piece of prose; a block that is simple (no backquote in the prose before it, an info
  string of word characters, possibly empty, and a body of one line); and the fragment
  expected for a block.
\<close>

fun render :: "(string \<times> string \<times> string) list \<Rightarrow> string \<Rightarrow> string" where
  "render [] tail = tail"
| "render ((p, t, b) # blocks) tail =
     p @ fence @ t @ CHR 0x0A # b @ CHR 0x0A # fence @ render blocks tail"

definition simple_block :: "string \<times> string \<times> string \<Rightarrow> bool" where
  "simple_block x =
     (case x of (p, t, b) \<Rightarrow>
        CHR 0x60 \<notin> set p \<and> list_all (in_class Word) t \<and> CHR 0x0A \<notin> set b)"

definition block_of :: "string \<times> string \<times> string \<Rightarrow> CodeBlock" where
  "block_of x =
     (case x of (p, t, b) \<Rightarrow>
        \<lparr>Language = (if t = [] then ''text'' else t), Code = b, Embedding = None\<rparr>)"

text \<open>\<open>processCode\<close>: the language table, the description heuristics, one block.\<close>

definition languageMap :: "(string \<times> string) list" where
  "languageMap =
     [(''.go'', ''go''), (''.py'', ''python''), (''.js'', ''javascript''), (''.jsx'', ''jsx''),
      (''.ts'', ''typescript''), (''.tsx'', ''tsx''), (''.html'', ''html''), (''.css'', ''css''),
      (''.json'', ''json''), (''.yaml'', ''yaml''), (''.yml'', ''yaml'')]"

fun goComment :: "string list \<Rightarrow> string \<Rightarrow> string" where
  "goComment [] description = description"
| "goComment (line # lines) description =
     (if prefix ''//'' line
        then goComment lines (description @ TrimPrefix line ''//'' @ [CHR 0x0A])
      else if TrimSpace line = [] then goComment lines description
      else description)"

definition codeDescription :: "string \<Rightarrow> string \<Rightarrow> string" where
  "codeDescription language content =
     (if language = ''python'' then
        (let docstringMatch = FindStringSubmatch docstringRegex content
         in if length docstringMatch > 1 then TrimSpace (docstringMatch ! 1) else [])
      else if language = ''go'' then TrimSpace (goComment (ScanLines content) [])
      else if language = ''javascript'' \<or> language = ''typescript'' \<or>
              language = ''jsx'' \<or> language = ''tsx'' then
        (let commentMatch = FindStringSubmatch commentRegex content
         in if length commentMatch > 1 then TrimSpace (commentMatch ! 1) else [])
      else [])"

definition processCode :: "string \<Rightarrow> string \<Rightarrow> string \<Rightarrow> Content" where
  "processCode content fileExt filePath =
     (let language = (case map_of languageMap fileExt of None \<Rightarrow> ''text'' | Some l \<Rightarrow> l);
          found = codeDescription language content;
          description = (if found = [] then ''Code file: '' @ filePath else found);
          title = Base filePath
      in \<lparr>Title = title, Description = description, Source = filePath, Content = content,
          CodeBlocks = [\<lparr>Language = language, Code = content, Embedding = None\<rparr>],
          Type = ''code''\<rparr>)"

text \<open>
  \<open>ProcessFile\<close>. The file system is the function \<open>readFile\<close> (\<open>os.ReadFile\<close>: the
  content, or \<open>None\<close> when the file cannot be read).
\<close>

datatype process_error = ReadError | PathError

definition ProcessFile ::
  "ContentProcessor \<Rightarrow> (string \<Rightarrow> string option) \<Rightarrow> string \<Rightarrow> process_error + Content" where
  "ProcessFile p readFile filePath =
     (case readFile filePath of
        None \<Rightarrow> Inl ReadError
      | Some fileContent \<Rightarrow>
          (let fileExt = Ext filePath
           in case Rel (repoPath p) filePath of
                None \<Rightarrow> Inl PathError
              | Some relPath \<Rightarrow>
                  Inr (if fileExt = ''.md'' then processMarkdown fileContent relPath
                       else processCode fileContent fileExt relPath)))"

text \<open>
  The loop of \<open>generateDocs\<close> over the selected files. What it prints is kept as a list
  of lines: a warning for a file that failed, a notice for a processed one.
\<close>

datatype output_line = Warning string process_error | Processed string

fun processFiles ::
  "ContentProcessor \<Rightarrow> (string \<Rightarrow> string option) \<Rightarrow> string list \<Rightarrow> Content list
    \<Rightarrow> output_line list \<Rightarrow> Content list \<times> output_line list" where
  "processFiles p readFile [] contents out = (contents, out)"
| "processFiles p readFile (file # files) contents out =
     (case ProcessFile p readFile file of
        Inl e \<Rightarrow> processFiles p readFile files contents (out @ [Warning file e])
      | Inr processedContent \<Rightarrow>
          processFiles p readFile files (contents @ [processedContent])
            (out @ [Processed file]))"

section \<open>Embedding annotator (EmbeddingService.CreateEmbeddings)\<close>

text \<open>
  The remote service is a function of the requests sent so far and of the input of the
  current request: it answers with an error or with the list \<open>resp.Data\<close> of embedding
  vectors. Vector entries are modelled as reals; the conversion from \<open>float32\<close> to
  \<open>float64\<close> is exact.
\<close>

datatype embed_error = RemoteError

type_synonym remote = "string list \<Rightarrow> string \<Rightarrow> embed_error + real list list"

definition float64 :: "real \<Rightarrow> real" where
  "float64 v = v"

text \<open>
  The inner loop, over the blocks of one record, and the outer loop, over the records.
  Both thread the list of requests sent. The source assigns to
  \<open>contents[i].CodeBlocks[j].Embedding\<close> in place, in the caller's slice: the lists
  returned here are the state of that slice when the loops end, also when they end with
  an error (records are taken not to share their blocks).
\<close>

fun embedBlocks ::
  "remote \<Rightarrow> CodeBlock list \<Rightarrow> string list \<Rightarrow> embed_error option \<times> CodeBlock list \<times> string list"
where
  "embedBlocks client [] sent = (None, [], sent)"
| "embedBlocks client (b # bs) sent =
     (if Code b = [] then
        (case embedBlocks client bs sent of (e, bs', sent') \<Rightarrow> (e, b # bs', sent'))
      else
        (let code = (if length (Code b) > 32000 then take 32000 (Code b) else Code b)
         in case client sent code of
              Inl err \<Rightarrow> (Some err, b # bs, sent @ [code])
            | Inr data \<Rightarrow>
                (let b' = (if length data > 0
                           then b\<lparr>Embedding := Some (map float64 (hd data))\<rparr> else b)
                 in case embedBlocks client bs (sent @ [code]) of
                      (e, bs', sent') \<Rightarrow> (e, b' # bs', sent'))))"

fun embedContents ::
  "remote \<Rightarrow> Content list \<Rightarrow> string list \<Rightarrow> embed_error option \<times> Content list \<times> string list"
where
  "embedContents client [] sent = (None, [], sent)"
| "embedContents client (c # cs) sent =
     (case embedBlocks client (CodeBlocks c) sent of
        (Some err, bs', sent') \<Rightarrow> (Some err, c\<lparr>CodeBlocks := bs'\<rparr> # cs, sent')
      | (None, bs', sent') \<Rightarrow>
          (case embedContents client cs sent' of
             (e, cs', sent'') \<Rightarrow> (e, c\<lparr>CodeBlocks := bs'\<rparr> # cs', sent'')))"

text \<open>
  \<open>CreateEmbeddings\<close>: what it returns (the error, or the slice it was given), the
  caller's slice after the call, and the requests it sent.
\<close>

definition CreateEmbeddings ::
  "remote \<Rightarrow> Content list \<Rightarrow> (embed_error + Content list) \<times> Content list \<times> string list" where
  "CreateEmbeddings client contents =
     (case embedContents client contents [] of
        (Some err, store, sent) \<Rightarrow> (Inl err, store, sent)
      | (None, store, sent) \<Rightarrow> (Inr store, store, sent))"

text \<open>
  For the statements: a block, and a record, that differ from the original in embeddings
  at most, a block with empty code not even there; and the requests that a complete run
  sends, one for each block with code (cut to 32000 bytes), in order.
\<close>

definition same_block :: "CodeBlock \<Rightarrow> CodeBlock \<Rightarrow> bool" where
  "same_block b b' =
     (Language b' = Language b \<and> Code b' = Code b \<and>
      (Code b = [] \<longrightarrow> Embedding b' = Embedding b))"

definition same_record :: "Content \<Rightarrow> Content \<Rightarrow> bool" where
  "same_record c c' =
     (Title c' = Title c \<and> Description c' = Description c \<and> Source c' = Source c \<and>
      Content c' = Content c \<and> Type c' = Type c \<and>
      list_all2 same_block (CodeBlocks c) (CodeBlocks c'))"

definition block_requests :: "CodeBlock list \<Rightarrow> string list" where
  "block_requests bs =
     map (\<lambda>b. if length (Code b) > 32000 then take 32000 (Code b) else Code b)
         (filter (\<lambda>b. Code b \<noteq> []) bs)"

definition requests :: "Content list \<Rightarrow> string list" where
  "requests contents = concat (map (\<lambda>c. block_requests (CodeBlocks c)) contents)"

text \<open>The service answered each of the requests \<open>rs\<close>, sent one after the other.\<close>

fun answered :: "remote \<Rightarrow> string list \<Rightarrow> string list \<Rightarrow> bool" where
  "answered client sent [] = True"
| "answered client sent (r # rs) =
     ((case client sent r of Inl err \<Rightarrow> False | Inr data \<Rightarrow> True) \<and>
      answered client (sent @ [r]) rs)"

section \<open>Properties of the file selector\<close>

subsection \<open>What one call of the callback does\<close>


lemma walkFn_new:
  "walkFn p path info err files = (r, fs) \<Longrightarrow> fs = files \<or> (fs = files @ [path] \<and> \<not> IsDir info \<and> r = None)"
  by (auto simp: walkFn_def split: if_splits option.splits)

lemma walkFn_dir_include:
  assumes "walkFn p path (FileInfo n True) err files = (None, fs)" "includeDirs p \<noteq> []"
  shows "\<exists>rel. Rel (repoPath p) path = Some rel \<and>
           (rel = ''.'' \<or> list_ex (\<lambda>d. prefix d rel) (includeDirs p))"
  using assms by (auto simp: walkFn_def split: if_splits option.splits)

lemma walkFn_dir_not_excluded:
  "walkFn p path (FileInfo n True) err files = (None, fs) \<Longrightarrow> n \<notin> set (excludeDirs p)"
  by (auto simp: walkFn_def split: if_splits option.splits)

subsection \<open>The file-type test commutes with the walk\<close>







text \<open>
  Without an include list, the walk of a readable tree prunes exactly the directories
  whose name is excluded and visits every other file.
\<close>

lemma walk_outside_excluded:
  "includeDirs p = [] \<Longrightarrow> readable_tree t \<Longrightarrow>
     walk p path t files
       = (if pruned (excludeDirs p) t then Some SkipDir else None,
          files @ filter (type_match p) (outside_excluded (excludeDirs p) path t))"
  "includeDirs p = [] \<Longrightarrow> list_all readable_tree cs \<Longrightarrow>
     walk_names p path cs files
       = (None, files @ filter (type_match p) (outside_excluded_in (excludeDirs p) path cs))"
proof (induction p path t files and p path cs files rule: walk_walk_names.induct)
  case (1 p path n files)
  then show ?case by (simp add: walkFn_def type_match_def)
next
  case (2 p path n files)
  then show ?case by simp
next
  case (3 p path n readable cs files)
  show ?case
  proof (cases "n \<in> set (excludeDirs p)")
    case True
    then have "walkFn p path (FileInfo n True) (\<not> readable) files = (Some SkipDir, files)"
      using 3(3) by (simp add: walkFn_def)
    with True show ?thesis by simp
  next
    case False
    then have w: "walkFn p path (FileInfo n True) (\<not> readable) files = (None, files)"
      using 3(2,3) by (simp add: walkFn_def)
    from 3 w False show ?thesis by simp
  qed
next
  case (4 p path files)
  then show ?case by simp
next
  case (5 p path c cs files)
  from 5(4,5) have c: "readable_tree c" and cs: "list_all readable_tree cs" by simp_all
  let ?fs = "files @ filter (type_match p) (outside_excluded (excludeDirs p) (Join path (node_name c)) c)"
  from 5(1)[OF 5(4) c]
  have w: "walk p (Join path (node_name c)) c files
             = (if pruned (excludeDirs p) c then Some SkipDir else None, ?fs)" .
  show ?case
  proof (cases "pruned (excludeDirs p) c")
    case True
    then have nf: "\<not> is_file c" by (cases c) simp_all
    from True w have w': "walk p (Join path (node_name c)) c files = (Some SkipDir, ?fs)" by simp
    from 5(3)[OF w'[symmetric] refl _ 5(4) cs] nf
    have "walk_names p path cs ?fs
        = (None, ?fs @ filter (type_match p) (outside_excluded_in (excludeDirs p) path cs))"
      by simp
    with w' nf show ?thesis by simp
  next
    case False
    with w have w': "walk p (Join path (node_name c)) c files = (None, ?fs)" by simp
    from 5(2)[OF w'[symmetric] refl 5(4) cs] w' show ?thesis by simp
  qed
qed

lemma GetFiles_pruned:
  assumes "includeDirs p = []" and "readable_tree t"
  shows "GetFiles p t = Inr (filter (type_match p) (outside_excluded (excludeDirs p) (repoPath p) t))"
  using walk_outside_excluded(1)[OF assms, of "repoPath p" "[]"]
  by (simp add: GetFiles_def Walk_def)

text \<open>
  The exclusion list matters only through the directory names of the tree that are among
  its entries.
\<close>

lemma walkFn_exclude_cong:
  "(n \<in> set ex) = (n \<in> set (excludeDirs p)) \<Longrightarrow>
     walkFn (p\<lparr>excludeDirs := ex\<rparr>) path (FileInfo n True) err files
       = walkFn p path (FileInfo n True) err files"
  by (simp add: walkFn_def cong: option.case_cong)

lemma walkFn_exclude_file:
  "walkFn (p\<lparr>excludeDirs := ex\<rparr>) path (FileInfo n False) err files
     = walkFn p path (FileInfo n False) err files"
  by (simp add: walkFn_def)

lemma walk_exclude_cong:
  "\<forall>n\<in>set (dir_names t). (n \<in> set ex) = (n \<in> set (excludeDirs p)) \<Longrightarrow>
     walk (p\<lparr>excludeDirs := ex\<rparr>) path t files = walk p path t files"
  "\<forall>n\<in>set (concat (map dir_names cs)). (n \<in> set ex) = (n \<in> set (excludeDirs p)) \<Longrightarrow>
     walk_names (p\<lparr>excludeDirs := ex\<rparr>) path cs files = walk_names p path cs files"
proof (induction p path t files and p path cs files rule: walk_walk_names.induct)
  case (1 p path n files)
  show ?case by (simp add: walkFn_exclude_file)
next
  case (2 p path n files)
  show ?case by (simp add: walkFn_exclude_file)
next
  case (3 p path n readable cs files)
  from 3(2) have n: "(n \<in> set ex) = (n \<in> set (excludeDirs p))"
    and cs: "\<forall>n\<in>set (concat (map dir_names cs)). (n \<in> set ex) = (n \<in> set (excludeDirs p))"
    by simp_all
  obtain r0 fs0 where w: "walkFn p path (FileInfo n True) (\<not> readable) files = (r0, fs0)"
    by (cases "walkFn p path (FileInfo n True) (\<not> readable) files")
  show ?case
  proof (cases "r0 = None \<and> readable")
    case True
    from 3(1)[OF w[symmetric] _ _ cs] True
    have "walk_names (p\<lparr>excludeDirs := ex\<rparr>) path cs fs0 = walk_names p path cs fs0" by simp
    with True w show ?thesis by (simp add: walkFn_exclude_cong[OF n])
  next
    case False
    with w show ?thesis by (auto simp: walkFn_exclude_cong[OF n])
  qed
next
  case (4 p path files)
  show ?case by simp
next
  case (5 p path c cs files)
  from 5(4) have c: "\<forall>n\<in>set (dir_names c). (n \<in> set ex) = (n \<in> set (excludeDirs p))"
    and cs: "\<forall>n\<in>set (concat (map dir_names cs)). (n \<in> set ex) = (n \<in> set (excludeDirs p))"
    by simp_all
  obtain r0 fs0 where w: "walk p (Join path (node_name c)) c files = (r0, fs0)"
    by (cases "walk p (Join path (node_name c)) c files")
  have w': "walk (p\<lparr>excludeDirs := ex\<rparr>) (Join path (node_name c)) c files = (r0, fs0)"
    using 5(1)[OF c] w by simp
  show ?case
  proof (cases r0)
    case None
    from 5(2)[OF w[symmetric] None cs] None w w' show ?thesis by simp
  next
    case (Some e)
    show ?thesis
    proof (cases "e = SkipDir \<and> \<not> is_file c")
      case True
      from 5(3)[OF w[symmetric] Some True cs] True Some w w' show ?thesis by simp
    next
      case False
      with Some w w' show ?thesis by auto
    qed
  qed
qed

lemma exclusion_by_names:
  assumes "\<forall>n\<in>set (dir_names t). (n \<in> set ex) = (n \<in> set (excludeDirs p))"
  shows "GetFiles (p\<lparr>excludeDirs := ex\<rparr>) t = GetFiles p t"
  using walk_exclude_cong(1)[OF assms, of "repoPath p" "[]"]
  by (simp add: GetFiles_def Walk_def)

subsection \<open>Every selected path extends the path of the entry it was found under\<close>


lemma walk_prefix:
  "walk p path t files = (r, fs) \<Longrightarrow> \<exists>new. fs = files @ new \<and> (\<forall>f\<in>set new. prefix path f)"
  "walk_names p path cs files = (r, fs) \<Longrightarrow> \<exists>new. fs = files @ new \<and> (\<forall>f\<in>set new. prefix (path @ ''/'') f)"
proof (induction p path t files and p path cs files arbitrary: r fs and r fs rule: walk_walk_names.induct)
  case (1 p path n files)
  then show ?case using walkFn_new[of p path "FileInfo n False" False files r fs] by auto
next
  case (2 p path n files)
  then show ?case using walkFn_new[of p path "FileInfo n False" True files r fs] by auto
next
  case (3 p path n readable cs files)
  obtain r0 fs0 where w: "walkFn p path (FileInfo n True) (\<not> readable) files = (r0, fs0)"
    by (cases "walkFn p path (FileInfo n True) (\<not> readable) files")
  from walkFn_new[OF w] have fs0: "fs0 = files" by auto
  show ?case
  proof (cases "r0 = None \<and> readable")
    case True
    with 3(2) w fs0 have "walk_names p path cs files = (r, fs)" by simp
    from 3(1)[OF w[symmetric] _ _ this[unfolded fs0[symmetric]]] True fs0
    obtain new where "fs = files @ new" "\<forall>f\<in>set new. prefix (path @ ''/'') f" by auto
    then show ?thesis by (auto dest: append_prefixD)
  next
    case False
    with 3(2) w fs0 have "fs = files" by (auto split: option.splits if_splits)
    then show ?thesis by simp
  qed
next
  case (4 p path files)
  then show ?case by simp
next
  case (5 p path c cs files)
  obtain r0 fs0 where w: "walk p (Join path (node_name c)) c files = (r0, fs0)"
    by (cases "walk p (Join path (node_name c)) c files")
  from 5(1)[OF w] obtain new0 where n0: "fs0 = files @ new0" "\<forall>f\<in>set new0. prefix (Join path (node_name c)) f"
    by auto
  have pre0: "\<forall>f\<in>set new0. prefix (path @ ''/'') f"
  proof
    fix f assume "f \<in> set new0"
    with n0(2) have "prefix ((path @ ''/'') @ node_name c) f" by (simp add: Join_def)
    then show "prefix (path @ ''/'') f" by (rule append_prefixD)
  qed
  show ?case
  proof (cases "r0 = None \<or> (r0 = Some SkipDir \<and> \<not> is_file c)")
    case True
    then have "walk_names p path cs fs0 = (r, fs)" using 5(4) w by (auto split: option.splits if_splits)
    moreover have "\<exists>new. fs = fs0 @ new \<and> (\<forall>f\<in>set new. prefix (path @ ''/'') f)"
      using True 5(2,3) w calculation by (auto)
    ultimately show ?thesis using n0 pre0 by auto
  next
    case False
    then have "fs = fs0" using 5(4) w by (auto split: option.splits if_splits)
    then show ?thesis using n0 pre0 by auto
  qed
qed

subsection \<open>Include directories\<close>


lemma Rel_Join: "Rel base (base @ CHR ''/'' # x) = Some x"
  by (simp add: Rel_def)

lemma include_ok_mono: "include_ok p cs f \<Longrightarrow> include_ok p (c # cs) f"
  by (auto simp: include_ok_def)

lemma walk_child_include:
  assumes inc: "includeDirs p \<noteq> []" and vn: "node_name c \<noteq> ''.''"
    and w: "walk p (Join (repoPath p) (node_name c)) c files = (r, fs)"
  shows "\<exists>new. fs = files @ new \<and> (\<forall>f\<in>set new. include_ok p (c # cs) f)"
proof (cases c)
  case (File n)
  with w walkFn_new[of p "Join (repoPath p) n" "FileInfo n False" False files r fs]
  show ?thesis by (auto simp: include_ok_def)
next
  case (Broken n)
  with w show ?thesis by (auto simp: walkFn_def)
next
  case (Dir n rd cs')
  let ?path = "Join (repoPath p) n"
  obtain r1 fs1 where w1: "walkFn p ?path (FileInfo n True) (\<not> rd) files = (r1, fs1)"
    by (cases "walkFn p ?path (FileInfo n True) (\<not> rd) files")
  from walkFn_new[OF w1] have fs1: "fs1 = files" by auto
  show ?thesis
  proof (cases "r1 = None \<and> rd")
    case False
    with w Dir w1 fs1 have "fs = files" by (auto split: option.splits if_splits)
    then show ?thesis by simp
  next
    case True
    with w Dir w1 fs1 have wn: "walk_names p ?path cs' files = (r, fs)" by simp
    from walk_prefix(2)[OF wn] obtain new where
      new: "fs = files @ new" "\<forall>f\<in>set new. prefix (?path @ ''/'') f" by auto
    from True w1 fs1 have "walkFn p ?path (FileInfo n True) (\<not> rd) files = (None, files)" by simp
    from walkFn_dir_include[OF this inc] vn Dir
    have ex: "list_ex (\<lambda>d. prefix d n) (includeDirs p)"
      by (simp add: Join_def Rel_Join)
    have "include_ok p (c # cs) f" if "f \<in> set new" for f
    proof -
      from new(2) that obtain sub where "f = (?path @ ''/'') @ sub"
        by (auto simp: prefix_def)
      then have f: "f = repoPath p @ ''/'' @ (n @ ''/'' @ sub)" by (simp add: Join_def)
      have "Rel (repoPath p) f = Some (n @ ''/'' @ sub)"
        unfolding f using Rel_Join[of "repoPath p" "n @ ''/'' @ sub"] by simp
      moreover from ex have "list_ex (\<lambda>d. prefix d (n @ ''/'' @ sub)) (includeDirs p)"
        by (auto simp: list_ex_iff intro: prefix_prefix)
      ultimately show ?thesis by (auto simp: include_ok_def)
    qed
    with new(1) show ?thesis by auto
  qed
qed

lemma walk_names_include:
  assumes inc: "includeDirs p \<noteq> []"
  shows "list_all (\<lambda>c. valid_name (node_name c)) cs \<Longrightarrow>
         walk_names p (repoPath p) cs files = (r, fs) \<Longrightarrow>
         \<exists>new. fs = files @ new \<and> (\<forall>f\<in>set new. include_ok p cs f)"
proof (induction cs arbitrary: files r fs)
  case Nil
  then show ?case by simp
next
  case (Cons c cs)
  obtain r0 fs0 where w: "walk p (Join (repoPath p) (node_name c)) c files = (r0, fs0)"
    by (cases "walk p (Join (repoPath p) (node_name c)) c files")
  from Cons.prems(1) have vn: "node_name c \<noteq> ''.''" by (auto simp: valid_name_def)
  from walk_child_include[OF inc vn w, of cs] obtain new0 where
    n0: "fs0 = files @ new0" "\<forall>f\<in>set new0. include_ok p (c # cs) f" by auto
  show ?case
  proof (cases "r0 = None \<or> (r0 = Some SkipDir \<and> \<not> is_file c)")
    case True
    then have "walk_names p (repoPath p) cs fs0 = (r, fs)"
      using Cons.prems(2) w by (auto split: option.splits if_splits)
    from Cons.IH[OF _ this] Cons.prems(1) obtain new where
      "fs = fs0 @ new" "\<forall>f\<in>set new. include_ok p cs f" by auto
    with n0 show ?thesis by (auto intro: include_ok_mono)
  next
    case False
    then have "fs = fs0" using Cons.prems(2) w by (auto split: option.splits if_splits)
    with n0 show ?thesis by auto
  qed
qed

lemma GetFiles_include_dirs:
  assumes "includeDirs p \<noteq> []"
    and "entries_ok (Dir n readable cs)"
    and "GetFiles p (Dir n readable cs) = Inr files"
    and "f \<in> set files"
  shows "(\<exists>name. File name \<in> set cs \<and> f = Join (repoPath p) name) \<or>
         (\<exists>rel. Rel (repoPath p) f = Some rel \<and>
                list_ex (\<lambda>includeDir. prefix includeDir rel) (includeDirs p))"
proof -
  let ?root = "repoPath p"
  obtain r1 fs1 where w1: "walkFn p ?root (FileInfo n True) (\<not> readable) [] = (r1, fs1)"
    by (cases "walkFn p ?root (FileInfo n True) (\<not> readable) []")
  from walkFn_new[OF w1] have fs1: "fs1 = []" by auto
  show ?thesis
  proof (cases "r1 = None \<and> readable")
    case False
    with assms(3) w1 fs1 have "files = []"
      by (auto simp: GetFiles_def Walk_def split: option.splits if_splits walk_error.splits)
    with assms(4) show ?thesis by simp
  next
    case True
    obtain r fs where wn: "walk_names p ?root cs [] = (r, fs)"
      by (cases "walk_names p ?root cs []")
    with True w1 fs1 assms(3) have "files = fs"
      by (auto simp: GetFiles_def Walk_def split: option.splits if_splits walk_error.splits)
    moreover from assms(2) have "list_all (\<lambda>c. valid_name (node_name c)) cs"
      by (auto simp: list_all_iff)
    from walk_names_include[OF assms(1) this wn]
    have "\<forall>f\<in>set fs. include_ok p cs f" by auto
    ultimately show ?thesis using assms(4) by (auto simp: include_ok_def)
  qed
qed

subsection \<open>Excluded directories\<close>


lemma reach_Cons:
  assumes "reach p (Join path n) ns f" "valid_name n" "ns \<noteq> [] \<Longrightarrow> n \<notin> set (excludeDirs p)"
  shows "reach p path (n # ns) f"
  using assms by (auto simp: reach_def below_def Join_def)

lemma walk_reach:
  "walk p path t files = (r, fs) \<Longrightarrow> entries_ok t \<Longrightarrow>
     \<exists>new. fs = files @ new \<and>
       (\<forall>f\<in>set new. \<exists>ns. reach p path ns f \<and>
           (ns \<noteq> [] \<longrightarrow> node_name t \<notin> set (excludeDirs p)))"
  "walk_names p path cs files = (r, fs) \<Longrightarrow>
     list_all (\<lambda>c. valid_name (node_name c) \<and> entries_ok c) cs \<Longrightarrow>
     \<exists>new. fs = files @ new \<and> (\<forall>f\<in>set new. \<exists>ns. ns \<noteq> [] \<and> reach p path ns f)"
proof (induction p path t files and p path cs files arbitrary: r fs and r fs rule: walk_walk_names.induct)
  case (1 p path n files)
  have "reach p path [] path" by (simp add: reach_def below_def)
  with 1 walkFn_new[of p path "FileInfo n False" False files r fs] show ?case by auto
next
  case (2 p path n files)
  then show ?case by (auto simp: walkFn_def)
next
  case (3 p path n readable cs files)
  obtain r0 fs0 where w: "walkFn p path (FileInfo n True) (\<not> readable) files = (r0, fs0)"
    by (cases "walkFn p path (FileInfo n True) (\<not> readable) files")
  from walkFn_new[OF w] have fs0: "fs0 = files" by auto
  show ?case
  proof (cases "r0 = None \<and> readable")
    case True
    with 3(2) w fs0 have wn: "walk_names p path cs files = (r, fs)" by simp
    from True w have ne: "n \<notin> set (excludeDirs p)" by (auto dest: walkFn_dir_not_excluded)
    from 3(3) have "list_all (\<lambda>c. valid_name (node_name c) \<and> entries_ok c) cs" by simp
    from 3(1)[OF w[symmetric] _ _ wn[unfolded fs0[symmetric]] this] True fs0
    obtain new where "fs = files @ new" "\<forall>f\<in>set new. \<exists>ns. ns \<noteq> [] \<and> reach p path ns f" by auto
    with ne show ?thesis by auto
  next
    case False
    with 3(2) w fs0 have "fs = files" by (auto split: option.splits if_splits)
    then show ?thesis by simp
  qed
next
  case (4 p path files)
  then show ?case by simp
next
  case (5 p path c cs files)
  obtain r0 fs0 where w: "walk p (Join path (node_name c)) c files = (r0, fs0)"
    by (cases "walk p (Join path (node_name c)) c files")
  from 5(5) have ok: "valid_name (node_name c)" "entries_ok c"
    "list_all (\<lambda>c. valid_name (node_name c) \<and> entries_ok c) cs" by auto
  from 5(1)[OF w ok(2)] obtain new0 where n0: "fs0 = files @ new0"
    "\<forall>f\<in>set new0. \<exists>ns. reach p (Join path (node_name c)) ns f \<and>
           (ns \<noteq> [] \<longrightarrow> node_name c \<notin> set (excludeDirs p))"
    by auto
  have pre0: "\<forall>f\<in>set new0. \<exists>ns. ns \<noteq> [] \<and> reach p path ns f"
  proof
    fix f assume "f \<in> set new0"
    with n0(2) obtain ns where "reach p (Join path (node_name c)) ns f"
      "ns \<noteq> [] \<longrightarrow> node_name c \<notin> set (excludeDirs p)" by auto
    then have "reach p path (node_name c # ns) f" using ok(1) by (auto intro: reach_Cons)
    then show "\<exists>ns. ns \<noteq> [] \<and> reach p path ns f" by blast
  qed
  show ?case
  proof (cases "r0 = None \<or> (r0 = Some SkipDir \<and> \<not> is_file c)")
    case True
    then have wn: "walk_names p path cs fs0 = (r, fs)" using 5(4) w by (auto split: option.splits if_splits)
    have "\<exists>new. fs = fs0 @ new \<and> (\<forall>f\<in>set new. \<exists>ns. ns \<noteq> [] \<and> reach p path ns f)"
      using True 5(2,3) w wn ok(3) by auto
    then show ?thesis using n0 pre0 by auto
  next
    case False
    then have "fs = fs0" using 5(4) w by (auto split: option.splits if_splits)
    then show ?thesis using n0 pre0 by auto
  qed
qed

lemma below_split:
  "list_all valid_name ns \<Longrightarrow> below ns = x @ ''/'' @ sub \<Longrightarrow> \<exists>j<length ns. x = below (take j ns)"
proof (induction ns arbitrary: x)
  case Nil
  then show ?case by (simp add: below_def)
next
  case (Cons n ns)
  from Cons.prems(2) have eq: "CHR ''/'' # n @ below ns = x @ CHR ''/'' # sub"
    by (simp add: below_def)
  show ?case
  proof (cases x)
    case Nil
    then show ?thesis by (auto simp: below_def intro: exI[of _ 0])
  next
    case (Cons c x')
    with eq have eq': "n @ below ns = x' @ CHR ''/'' # sub" and c: "c = CHR ''/''" by auto
    from Cons.prems(1) have nf: "CHR ''/'' \<notin> set n" by (simp add: valid_name_def)
    from eq' have "\<exists>x''. x' = n @ x'' \<and> below ns = x'' @ CHR ''/'' # sub"
    proof (cases "length x' < length n")
      case True
      from eq' have "(n @ below ns) ! length x' = CHR ''/''" by simp
      with True have "n ! length x' = CHR ''/''" by (simp add: nth_append)
      with True nf show ?thesis by (metis nth_mem)
    next
      case False
      from eq' have "take (length n) (n @ below ns) = take (length n) (x' @ CHR ''/'' # sub)" by simp
      with False have "n = take (length n) x'" by simp
      then obtain x'' where x': "x' = n @ x''" by (metis append_take_drop_id)
      with eq' show ?thesis by auto
    qed
    then obtain x'' where x': "x' = n @ x''" and b: "below ns = x'' @ ''/'' @ sub" by auto
    from Cons.IH[OF _ b] Cons.prems(1) obtain j where "j < length ns" "x'' = below (take j ns)" by auto
    then have "Suc j < length (n # ns)" "x = below (take (Suc j) (n # ns))"
      using x' c \<open>x = c # x'\<close> by (auto simp: below_def)
    then show ?thesis by blast
  qed
qed

lemma Base_entry: "valid_name n \<Longrightarrow> Base (x @ ''/'' @ n) = n"
proof -
  assume v: "valid_name n"
  then obtain y ys where r: "rev n = y # ys" by (cases "rev n") (auto simp: valid_name_def)
  from v have ns: "\<forall>c\<in>set (rev n). c \<noteq> CHR ''/''" by (auto simp: valid_name_def)
  with r have y: "y \<noteq> CHR ''/''" by auto
  have d: "dropWhile (\<lambda>c. c = CHR ''/'') (rev n @ CHR ''/'' # rev x) = rev n @ CHR ''/'' # rev x"
    using r y by simp
  have "takeWhile (\<lambda>c. c \<noteq> CHR ''/'') (rev n @ CHR ''/'' # rev x)
          = rev n @ takeWhile (\<lambda>c. c \<noteq> CHR ''/'') (CHR ''/'' # rev x)"
    by (rule takeWhile_append2) (use ns in auto)
  then have t: "takeWhile (\<lambda>c. c \<noteq> CHR ''/'') (rev n @ CHR ''/'' # rev x) = rev n"
    by simp
  show ?thesis using v by (simp add: Base_def d t valid_name_def)
qed

lemma GetFiles_exclude_dirs:
  assumes "entries_ok t" and "node_name t = Base (repoPath p)"
    and "GetFiles p t = Inr files" and "f \<in> set files"
    and "f = dpath @ ''/'' @ sub" and "prefix (repoPath p) dpath"
  shows "Base dpath \<notin> set (excludeDirs p)"
proof -
  obtain r fs where w: "walk p (repoPath p) t [] = (r, fs)" by (cases "walk p (repoPath p) t []")
  with assms(3) have "fs = files"
    by (auto simp: GetFiles_def Walk_def split: option.splits walk_error.splits)
  with walk_reach(1)[OF w assms(1)] assms(4) obtain ns where
    ns: "reach p (repoPath p) ns f" "ns \<noteq> [] \<longrightarrow> node_name t \<notin> set (excludeDirs p)" by auto
  from assms(6) obtain x where x: "dpath = repoPath p @ x" by (auto simp: prefix_def)
  with ns(1) assms(5) have b: "below ns = x @ ''/'' @ sub" by (simp add: reach_def)
  from ns(1) have v: "list_all valid_name ns" by (simp add: reach_def)
  from below_split[OF v b] obtain j where j: "j < length ns" "x = below (take j ns)" by auto
  show ?thesis
  proof (cases j)
    case 0
    with j x have "dpath = repoPath p" by (simp add: below_def)
    moreover from j have "ns \<noteq> []" by auto
    ultimately show ?thesis using ns(2) assms(2) by simp
  next
    case (Suc k)
    with j have k: "k < length ns" by simp
    then have "take (Suc k) ns = take k ns @ [ns ! k]" by (simp add: take_Suc_conv_app_nth)
    with j Suc x have "dpath = (repoPath p @ below (take k ns)) @ ''/'' @ ns ! k"
      by (simp add: below_def)
    moreover from v k have "valid_name (ns ! k)" by (simp add: list_all_length)
    ultimately have "Base dpath = ns ! k" by (simp only: Base_entry)
    moreover from j Suc have "ns ! k \<in> set (butlast ns)"
      by (metis in_set_conv_nth length_butlast less_diff_conv nth_butlast Suc_eq_plus1)
    ultimately show ?thesis using ns(1) by (auto simp: reach_def)
  qed
qed

subsection \<open>The claims about the file selector\<close>

text \<open>
  C2 (as amended). With a non-empty include list, every file that \<open>GetFiles\<close> returns
  either has a path relative to the root that begins, as a string, with one of the
  include entries, or is an entry of the root directory itself: the include test is
  applied to directories below the root only, never to a file, so files directly in the
  root are returned whatever the include list holds.
\<close>

theorem GetFiles_include_prefix:
  assumes "includeDirs p \<noteq> []"
    and "entries_ok (Dir n readable cs)"
    and "GetFiles p (Dir n readable cs) = Inr files"
    and "f \<in> set files"
  shows "(\<exists>name. File name \<in> set cs \<and> f = Join (repoPath p) name) \<or>
         (\<exists>rel. Rel (repoPath p) f = Some rel \<and>
                list_ex (\<lambda>includeDir. prefix includeDir rel) (includeDirs p))"
  using assms by (rule GetFiles_include_dirs)

theorem GetFiles_include_prefix_witness:
  "includeDirs \<lparr>repoPath = ''/r'', includeDirs = [''docs''], excludeDirs = [''.git''],
                fileTypes = [''.md'']\<rparr> \<noteq> [] \<and>
   entries_ok (Dir ''r'' True [File ''README.md'', Dir ''docs'' True [File ''a.md''],
                               Dir ''src'' True [File ''b.md'']]) \<and>
   GetFiles \<lparr>repoPath = ''/r'', includeDirs = [''docs''], excludeDirs = [''.git''],
             fileTypes = [''.md'']\<rparr>
     (Dir ''r'' True [File ''README.md'', Dir ''docs'' True [File ''a.md''],
                      Dir ''src'' True [File ''b.md'']])
     = Inr [''/r/README.md'', ''/r/docs/a.md''] \<and>
   ((\<exists>name. File name \<in> set [File ''README.md'', Dir ''docs'' True [File ''a.md''],
                                Dir ''src'' True [File ''b.md'']] \<and>
            ''/r/docs/a.md'' = Join ''/r'' name) \<or>
    (\<exists>rel. Rel ''/r'' ''/r/docs/a.md'' = Some rel \<and>
           list_ex (\<lambda>includeDir. prefix includeDir rel) [''docs'']))"
proof -
  let ?p = "\<lparr>repoPath = ''/r'', includeDirs = [''docs''], excludeDirs = [''.git''],
             fileTypes = [''.md'']\<rparr>"
  let ?cs = "[File ''README.md'', Dir ''docs'' True [File ''a.md''],
              Dir ''src'' True [File ''b.md'']]"
  have inc: "includeDirs ?p \<noteq> []" by simp
  have ok: "entries_ok (Dir ''r'' True ?cs)" by (simp add: valid_name_def)
  have run: "GetFiles ?p (Dir ''r'' True ?cs) = Inr [''/r/README.md'', ''/r/docs/a.md'']"
    by (simp add: GetFiles_def Walk_def walkFn_def Join_def Rel_def suffix_to_prefix)
  have mem: "''/r/docs/a.md'' \<in> set [''/r/README.md'', ''/r/docs/a.md'']" by simp
  from GetFiles_include_prefix[OF inc ok run mem] inc ok run show ?thesis by simp
qed

text \<open>
  The claim as stated fails for a file in the root directory: with the include list
  \<open>docs\<close>, the file \<open>README.md\<close> of the root is returned although its relative path does
  not begin with \<open>docs\<close>.
\<close>

theorem GetFiles_include_root_file_counterexample:
  "GetFiles \<lparr>repoPath = ''/r'', includeDirs = [''docs''], excludeDirs = [''.git''],
             fileTypes = [''.md'']\<rparr>
     (Dir ''r'' True [File ''README.md'', Dir ''docs'' True [File ''a.md''],
                      Dir ''src'' True [File ''b.md'']])
     = Inr [''/r/README.md'', ''/r/docs/a.md''] \<and>
   Rel ''/r'' ''/r/README.md'' = Some ''README.md'' \<and>
   \<not> prefix ''docs'' ''README.md''"
  by (simp add: GetFiles_def Walk_def walkFn_def Join_def Rel_def suffix_to_prefix)




text \<open>
  C5. A directory whose base name is an entry of \<open>excludeDirs\<close> is skipped by the
  callback, which never adds a directory to the result; and no file beneath such a
  directory, at any depth, is returned: whenever a returned file \<open>f\<close> lies beneath a
  directory \<open>dpath\<close> of the repository (\<open>f\<close> is \<open>dpath\<close>, a separator and more), the base
  name of \<open>dpath\<close> is not excluded. The test compares names and nothing else. A directory
  whose name is no entry is treated by the callback as if nothing were excluded, so
  that, without an include list, a directory is skipped exactly when its name is an
  entry, and the result on a readable tree is exactly the matching files outside the
  directories with an excluded name. Two exclusion lists that hold the same directory
  names of the tree give the same result, whatever else they hold: an entry that is
  only a prefix of a name, or that spells a path, relative or absolute, excludes nothing.
\<close>

theorem GetFiles_exclude:
  "(n \<in> set (excludeDirs p) \<longrightarrow>
      walkFn p path (FileInfo n True) False files = (Some SkipDir, files)) \<and>
   snd (walkFn p path (FileInfo n True) err files) = files \<and>
   (entries_ok t \<and> node_name t = Base (repoPath p) \<and> GetFiles p t = Inr selected \<and>
    f \<in> set selected \<and> f = dpath @ ''/'' @ sub \<and> prefix (repoPath p) dpath
      \<longrightarrow> Base dpath \<notin> set (excludeDirs p)) \<and>
   (m \<notin> set (excludeDirs p) \<longrightarrow>
      walkFn p path (FileInfo m True) err files
        = walkFn (p\<lparr>excludeDirs := []\<rparr>) path (FileInfo m True) err files) \<and>
   (includeDirs p = [] \<longrightarrow>
      (walkFn p path (FileInfo m True) False files = (Some SkipDir, files))
        = (m \<in> set (excludeDirs p))) \<and>
   (includeDirs p = [] \<and> readable_tree t \<longrightarrow>
      GetFiles p t
        = Inr (filter (type_match p) (outside_excluded (excludeDirs p) (repoPath p) t))) \<and>
   ((\<forall>d\<in>set (dir_names t). (d \<in> set ex) = (d \<in> set (excludeDirs p))) \<longrightarrow>
      GetFiles (p\<lparr>excludeDirs := ex\<rparr>) t = GetFiles p t) \<and>
   GetFiles \<lparr>repoPath = ''/r'', includeDirs = [], excludeDirs = [''docs/gen'', ''/r/docs''],
             fileTypes = [''.md'']\<rparr>
     (Dir ''r'' True [Dir ''docs'' True [Dir ''gen'' True [File ''x.md'']]])
     = Inr [''/r/docs/gen/x.md'']"
proof -
  have a: "n \<in> set (excludeDirs p) \<longrightarrow>
      walkFn p path (FileInfo n True) False files = (Some SkipDir, files)"
    by (simp add: walkFn_def)
  have b: "snd (walkFn p path (FileInfo n True) err files) = files"
    by (simp add: walkFn_def split: option.splits)
  have c: "entries_ok t \<and> node_name t = Base (repoPath p) \<and> GetFiles p t = Inr selected \<and>
    f \<in> set selected \<and> f = dpath @ ''/'' @ sub \<and> prefix (repoPath p) dpath
      \<longrightarrow> Base dpath \<notin> set (excludeDirs p)"
    using GetFiles_exclude_dirs[of t p selected f dpath sub] by blast
  have e: "m \<notin> set (excludeDirs p) \<longrightarrow>
      walkFn p path (FileInfo m True) err files
        = walkFn (p\<lparr>excludeDirs := []\<rparr>) path (FileInfo m True) err files"
    by (simp add: walkFn_def cong: option.case_cong)
  have g: "includeDirs p = [] \<longrightarrow>
      (walkFn p path (FileInfo m True) False files = (Some SkipDir, files))
        = (m \<in> set (excludeDirs p))"
    by (simp add: walkFn_def)
  have h: "includeDirs p = [] \<and> readable_tree t \<longrightarrow>
      GetFiles p t
        = Inr (filter (type_match p) (outside_excluded (excludeDirs p) (repoPath p) t))"
    using GetFiles_pruned[of p t] by blast
  have i: "(\<forall>d\<in>set (dir_names t). (d \<in> set ex) = (d \<in> set (excludeDirs p))) \<longrightarrow>
      GetFiles (p\<lparr>excludeDirs := ex\<rparr>) t = GetFiles p t"
    using exclusion_by_names[of t ex p] by blast
  have d:
    "GetFiles \<lparr>repoPath = ''/r'', includeDirs = [], excludeDirs = [''docs/gen'', ''/r/docs''],
               fileTypes = [''.md'']\<rparr>
       (Dir ''r'' True [Dir ''docs'' True [Dir ''gen'' True [File ''x.md'']]])
       = Inr [''/r/docs/gen/x.md'']"
    by (simp add: GetFiles_def Walk_def walkFn_def Join_def suffix_to_prefix)
  show ?thesis by (intro conjI a b c e g h i d)
qed

theorem GetFiles_exclude_witness:
  "''.git'' \<in> set [''.git''] \<and>
   entries_ok (Dir ''r'' True [Dir ''.git'' True [File ''x.md''],
                               Dir ''docs'' True [Dir ''.git'' True [File ''y.md''],
                                                  File ''a.md'']]) \<and>
   node_name (Dir ''r'' True [Dir ''.git'' True [File ''x.md''],
                              Dir ''docs'' True [Dir ''.git'' True [File ''y.md''],
                                                 File ''a.md'']]) = Base ''/r'' \<and>
   GetFiles \<lparr>repoPath = ''/r'', includeDirs = [], excludeDirs = [''.git''],
             fileTypes = [''.md'']\<rparr>
     (Dir ''r'' True [Dir ''.git'' True [File ''x.md''],
                      Dir ''docs'' True [Dir ''.git'' True [File ''y.md''], File ''a.md'']])
     = Inr [''/r/docs/a.md''] \<and>
   prefix ''/r'' ''/r/docs'' \<and>
   Base ''/r/docs'' \<notin> set [''.git''] \<and>
   walkFn \<lparr>repoPath = ''/r'', includeDirs = [], excludeDirs = [''.git''],
           fileTypes = [''.md'']\<rparr> ''/r/.git'' (FileInfo ''.git'' True) False []
     = (Some SkipDir, []) \<and>
   walkFn \<lparr>repoPath = ''/r'', includeDirs = [], excludeDirs = [''.git''],
           fileTypes = [''.md'']\<rparr> ''/r/.git'' (FileInfo ''.gitx'' True) False []
     \<noteq> (Some SkipDir, []) \<and>
   readable_tree (Dir ''r'' True [Dir ''.git'' True [File ''x.md''],
                                  Dir ''docs'' True [Dir ''.git'' True [File ''y.md''],
                                                     File ''a.md'']]) \<and>
   outside_excluded [''.git''] ''/r''
     (Dir ''r'' True [Dir ''.git'' True [File ''x.md''],
                      Dir ''docs'' True [Dir ''.git'' True [File ''y.md''], File ''a.md'']])
     = [''/r/docs/a.md''] \<and>
   dir_names (Dir ''r'' True [Dir ''.git'' True [File ''x.md''],
                              Dir ''docs'' True [Dir ''.git'' True [File ''y.md''],
                                                 File ''a.md'']])
     = [''r'', ''.git'', ''docs'', ''.git''] \<and>
   GetFiles \<lparr>repoPath = ''/r'', includeDirs = [],
             excludeDirs = [''doc'', ''.git'', ''r/docs'', ''/r/docs''],
             fileTypes = [''.md'']\<rparr>
     (Dir ''r'' True [Dir ''.git'' True [File ''x.md''],
                      Dir ''docs'' True [Dir ''.git'' True [File ''y.md''], File ''a.md'']])
     = Inr [''/r/docs/a.md'']"
proof -
  let ?p = "\<lparr>repoPath = ''/r'', includeDirs = [], excludeDirs = [''.git''],
             fileTypes = [''.md'']\<rparr>"
  let ?t = "Dir ''r'' True [Dir ''.git'' True [File ''x.md''],
                            Dir ''docs'' True [Dir ''.git'' True [File ''y.md''],
                                               File ''a.md'']]"
  let ?ex = "[''doc'', ''.git'', ''r/docs'', ''/r/docs'']"
  note all = GetFiles_exclude[where n = "''.git''" and p = ?p and path = "''/r/.git''"
      and files = "[]" and err = False and t = ?t and selected = "[''/r/docs/a.md'']"
      and f = "''/r/docs/a.md''" and dpath = "''/r/docs''" and sub = "''a.md''"
      and m = "''.gitx''" and ex = ?ex]
  have ok: "entries_ok ?t" by (simp add: valid_name_def)
  have nm: "node_name ?t = Base ''/r''" by (simp add: Base_def)
  have rd: "readable_tree ?t" by simp
  have oe: "outside_excluded [''.git''] ''/r'' ?t = [''/r/docs/a.md'']"
    by (simp add: Join_def)
  have dn: "dir_names ?t = [''r'', ''.git'', ''docs'', ''.git'']" by simp
  have pre: "prefix ''/r'' ''/r/docs''" by simp
  from all[THEN conjunct2, THEN conjunct2, THEN conjunct2, THEN conjunct2, THEN conjunct2,
      THEN conjunct1] rd oe
  have run: "GetFiles ?p ?t = Inr [''/r/docs/a.md'']"
    by (simp add: type_match_def suffix_to_prefix)
  from all[THEN conjunct1]
  have skip: "walkFn ?p ''/r/.git'' (FileInfo ''.git'' True) False [] = (Some SkipDir, [])"
    by simp
  from all[THEN conjunct2, THEN conjunct2, THEN conjunct2, THEN conjunct2, THEN conjunct1]
  have pass: "walkFn ?p ''/r/.git'' (FileInfo ''.gitx'' True) False [] \<noteq> (Some SkipDir, [])"
    by simp
  from all[THEN conjunct2, THEN conjunct2, THEN conjunct1] ok nm run pre
  have base: "Base ''/r/docs'' \<notin> set [''.git'']" by simp
  from all[THEN conjunct2, THEN conjunct2, THEN conjunct2, THEN conjunct2, THEN conjunct2,
      THEN conjunct2, THEN conjunct1] dn run
  have names: "GetFiles \<lparr>repoPath = ''/r'', includeDirs = [], excludeDirs = ?ex,
                          fileTypes = [''.md'']\<rparr> ?t = Inr [''/r/docs/a.md'']"
    by simp
  have mem: "''.git'' \<in> set [''.git'']" by simp
  show ?thesis by (intro conjI mem ok nm run pre base skip pass rd oe dn names)
qed
section \<open>Properties of the repository handler\<close>

lemma CloneRepo_unsupported:
  assumes "\<not> prefix ''https://github.com/'' repoURL" and "\<not> prefix ''https://gitlab.com/'' repoURL"
  shows "CloneRepo (Some tmp) cl h d repoURL
           = (Inl UnsupportedHost, h\<lparr>tempDir := tmp\<rparr>, d\<lparr>dirs := dirs d @ [tmp]\<rparr>)"
    and "CloneRepo None cl h d repoURL = (Inl MkdirTempFailed, h, d)"
  using assms by (simp_all add: CloneRepo_def)

text \<open>
  C3. A URL outside the two allowed hosting prefixes is rejected, but only after the
  temporary directory has been created and recorded in the handler: on this error path
  the disk holds one directory more than before (nothing has been cloned into it).
\<close>

theorem CloneRepo_rejects_after_mkdir:
  "CloneRepo (Some ''/tmp/llm-generator-1'') True
      \<lparr>tempDir = ''''\<rparr> \<lparr>dirs = [], populated = []\<rparr> ''https://example.com/u/r''
   = (Inl UnsupportedHost,
      \<lparr>tempDir = ''/tmp/llm-generator-1''\<rparr>,
      \<lparr>dirs = [''/tmp/llm-generator-1''], populated = []\<rparr>)"
  by (simp add: CloneRepo_def)

section \<open>Properties of the fenced-block pattern\<close>

text \<open>
  The equations of the two repetitions and of the two trimming functions call the
  function again on their right-hand sides, and the word class unfolds into a long
  disjunction: they are taken out of the simplifier's default set and used where needed.
\<close>

declare ms.simps(5,6) [simp del]

declare in_class.simps [simp del]

declare trimLeftSpace.simps [simp del] trimRightSpace.simps [simp del]

lemma nl_not_word: "\<not> in_class Word (CHR 0x0A)"
  by (simp add: in_class.simps)

lemma bq_not_word: "\<not> in_class Word (CHR 0x60)"
  by (simp add: in_class.simps)

lemma ms_Lit_rest: "s' \<in> set (ms (Lit l) s) \<Longrightarrow> rest s = l @ rest s'"
  by (auto simp: prefix_def split: if_splits)

lemma ms_Class_rest: "s' \<in> set (ms (Class k) s) \<Longrightarrow> \<exists>c. in_class k c \<and> rest s = c # rest s'"
  by (cases "rest s") (auto split: if_splits)

lemma ms_Star_Class_Nil: "rest s = [] \<Longrightarrow> ms (Star (Class k)) s = [s]"
  by (simp add: ms.simps(5))

lemma ms_Star_Class_Cons:
  "rest s = c # cs \<Longrightarrow>
   ms (Star (Class k)) s =
     (if in_class k c then ms (Star (Class k)) (s\<lparr>prev := Some c, rest := cs\<rparr>) @ [s] else [s])"
  by (simp add: ms.simps(5))

lemma ms_LazyStar_Class_Nil: "rest s = [] \<Longrightarrow> ms (LazyStar (Class k)) s = [s]"
  by (simp add: ms.simps(6))

lemma ms_LazyStar_Class_Cons:
  "rest s = c # cs \<Longrightarrow>
   ms (LazyStar (Class k)) s =
     (if in_class k c then s # ms (LazyStar (Class k)) (s\<lparr>prev := Some c, rest := cs\<rparr>) else [s])"
  by (simp add: ms.simps(6))

lemma ms_Star_Class_rest:
  "s' \<in> set (ms (Star (Class k)) s) \<Longrightarrow> \<exists>w. list_all (in_class k) w \<and> rest s = w @ rest s'"
proof (induction "rest s" arbitrary: s)
  case Nil
  then show ?case by (auto simp: ms_Star_Class_Nil intro: exI[of _ "[]"])
next
  case (Cons c cs)
  from Cons.hyps(2) have r: "rest s = c # cs" by simp
  show ?case
  proof (cases "s' = s")
    case True
    then show ?thesis by (auto intro: exI[of _ "[]"])
  next
    case False
    with Cons.prems have k: "in_class k c"
      and m: "s' \<in> set (ms (Star (Class k)) (s\<lparr>prev := Some c, rest := cs\<rparr>))"
      by (auto simp: ms_Star_Class_Cons[OF r] split: if_splits)
    from Cons.hyps(1)[of "s\<lparr>prev := Some c, rest := cs\<rparr>", OF _ m]
    obtain w where "list_all (in_class k) w" "cs = w @ rest s'" by auto
    with k r show ?thesis by (auto intro: exI[of _ "c # w"])
  qed
qed

lemma ms_LazyStar_Class_rest:
  "s' \<in> set (ms (LazyStar (Class k)) s) \<Longrightarrow> \<exists>w. list_all (in_class k) w \<and> rest s = w @ rest s'"
proof (induction "rest s" arbitrary: s)
  case Nil
  then show ?case by (auto simp: ms_LazyStar_Class_Nil intro: exI[of _ "[]"])
next
  case (Cons c cs)
  from Cons.hyps(2) have r: "rest s = c # cs" by simp
  show ?case
  proof (cases "s' = s")
    case True
    then show ?thesis by (auto intro: exI[of _ "[]"])
  next
    case False
    with Cons.prems have k: "in_class k c"
      and m: "s' \<in> set (ms (LazyStar (Class k)) (s\<lparr>prev := Some c, rest := cs\<rparr>))"
      by (auto simp: ms_LazyStar_Class_Cons[OF r] split: if_splits)
    from Cons.hyps(1)[of "s\<lparr>prev := Some c, rest := cs\<rparr>", OF _ m]
    obtain w where "list_all (in_class k) w" "cs = w @ rest s'" by auto
    with k r show ?thesis by (auto intro: exI[of _ "c # w"])
  qed
qed

lemma ms_Seq_set: "s' \<in> set (ms (Seq a b) s) \<longleftrightarrow> (\<exists>s1\<in>set (ms a s). s' \<in> set (ms b s1))"
  by auto

lemma ms_Group_rest: "s' \<in> set (ms (Group n a) s) \<Longrightarrow> \<exists>s1\<in>set (ms a s). rest s1 = rest s'"
  by auto

lemma ms_Opt_set: "s' \<in> set (ms (Opt a) s) \<longleftrightarrow> s' \<in> set (ms a s) \<or> s' = s"
  by auto

lemma ms_tag_rest:
  assumes "s' \<in> set (ms (Opt (Group 1 (Plus (Class Word)))) s)"
  shows "\<exists>t. list_all (in_class Word) t \<and> rest s = t @ rest s'"
proof (cases "s' = s")
  case True
  then show ?thesis by (auto intro: exI[of _ "[]"])
next
  case False
  with assms have "s' \<in> set (ms (Group 1 (Plus (Class Word))) s)"
    unfolding ms_Opt_set by blast
  then obtain s1 where s1: "s1 \<in> set (ms (Plus (Class Word)) s)" "rest s1 = rest s'"
    by (blast dest: ms_Group_rest)
  from s1(1) obtain s0 where s0: "s0 \<in> set (ms (Class Word) s)" "s1 \<in> set (ms (Star (Class Word)) s0)"
    unfolding Plus_def ms_Seq_set by blast
  from ms_Class_rest[OF s0(1)] obtain c where c: "in_class Word c" "rest s = c # rest s0" by auto
  from ms_Star_Class_rest[OF s0(2)] obtain w where w: "list_all (in_class Word) w" "rest s0 = w @ rest s1" by auto
  from c w s1(2) show ?thesis by (auto intro: exI[of _ "c # w"])
qed

lemma codeBlock_shape:
  assumes "s' \<in> set (ms codeBlockRegex s)"
  shows "\<exists>t b. list_all (in_class Word) t \<and> list_all (in_class AnyNotNL) b \<and>
           rest s = fence @ t @ CHR 0x0A # b @ CHR 0x0A # fence @ rest s'"
proof -
  let ?r4 = "Seq (Group 2 (LazyStar (Class AnyNotNL))) (Lit (CHR 0x0A # fence))"
  let ?r3 = "Seq (Lit [CHR 0x0A]) ?r4"
  let ?r2 = "Seq (Opt (Group 1 (Plus (Class Word)))) ?r3"
  from assms have "s' \<in> set (ms (Seq (Lit fence) ?r2) s)" by (simp only: codeBlockRegex_def)
  then obtain s1 where 1: "s1 \<in> set (ms (Lit fence) s)" and a1: "s' \<in> set (ms ?r2 s1)"
    by (subst (asm) ms_Seq_set) (erule bexE)
  from a1 obtain s2 where 2: "s2 \<in> set (ms (Opt (Group 1 (Plus (Class Word)))) s1)"
    and a2: "s' \<in> set (ms ?r3 s2)"
    by (subst (asm) ms_Seq_set) (erule bexE)
  from a2 obtain s3 where 3: "s3 \<in> set (ms (Lit [CHR 0x0A]) s2)" and a3: "s' \<in> set (ms ?r4 s3)"
    by (subst (asm) ms_Seq_set) (erule bexE)
  from a3 obtain s4 where 4: "s4 \<in> set (ms (Group 2 (LazyStar (Class AnyNotNL))) s3)"
    and 5: "s' \<in> set (ms (Lit (CHR 0x0A # fence)) s4)"
    by (subst (asm) ms_Seq_set) (erule bexE)
  from ms_Lit_rest[OF 1] have r1: "rest s = fence @ rest s1" .
  from ms_tag_rest[OF 2] obtain t where t: "list_all (in_class Word) t" "rest s1 = t @ rest s2" by auto
  from ms_Lit_rest[OF 3] have r3: "rest s2 = [CHR 0x0A] @ rest s3" .
  from ms_Group_rest[OF 4] obtain s5 where s5: "s5 \<in> set (ms (LazyStar (Class AnyNotNL)) s3)" "rest s5 = rest s4" by auto
  from ms_LazyStar_Class_rest[OF s5(1)] obtain b where b: "list_all (in_class AnyNotNL) b" "rest s3 = b @ rest s5" by auto
  from ms_Lit_rest[OF 5] have r5: "rest s4 = (CHR 0x0A # fence) @ rest s'" .
  from r1 t r3 s5(2) b r5 show ?thesis by auto
qed


lemma match_here_None_iff:
  "match_here r pv text = None \<longleftrightarrow> ms r \<lparr>prev = pv, rest = text, caps = []\<rparr> = []"
  by (simp add: match_here_def split: list.splits)

lemma match_here_codeBlock_shape:
  assumes "match_here codeBlockRegex pv text = Some s'"
  shows "\<exists>t b. list_all (in_class Word) t \<and> list_all (in_class AnyNotNL) b \<and>
           text = fence @ t @ CHR 0x0A # b @ CHR 0x0A # fence @ rest s'"
proof -
  from assms have "s' \<in> set (ms codeBlockRegex \<lparr>prev = pv, rest = text, caps = []\<rparr>)"
    by (auto simp: match_here_def split: list.splits)
  from codeBlock_shape[OF this] show ?thesis by simp
qed


lemma tag_mismatch:
  assumes "\<not> list_all (in_class Word) tag" and "CHR 0x0A \<notin> set tag"
    and "list_all (in_class Word) t" and "t @ CHR 0x0A # x = tag @ CHR 0x0A # y"
  shows False
proof -
  from assms(4) consider us where "t = tag @ us" | us where "tag = t @ us" "CHR 0x0A # x = us @ CHR 0x0A # y"
    by (auto simp: append_eq_append_conv2)
  then show False
  proof cases
    case 1
    with assms(1,3) show False by simp
  next
    case 2
    show False
    proof (cases us)
      case Nil
      with 2 assms(1,3) show False by simp
    next
      case (Cons c us')
      with 2 assms(2) show False by auto
    qed
  qed
qed
lemma word_tag_unique:
  assumes "list_all (in_class Word) t" and "list_all (in_class Word) tag"
    and "t @ CHR 0x0A # x = tag @ CHR 0x0A # y"
  shows "t = tag \<and> x = y"
  using assms
proof (induction t arbitrary: tag)
  case Nil
  then show ?case using nl_not_word by (cases tag) auto
next
  case (Cons a t)
  show ?case
  proof (cases tag)
    case Nil
    with Cons.prems show ?thesis using nl_not_word by auto
  next
    case (Cons c tag')
    with Cons.prems Cons.IH[of tag'] show ?thesis by auto
  qed
qed
lemma body_starts_with_fence:
  assumes "list_all (in_class AnyNotNL) b" and "b @ CHR 0x0A # fence @ r = fence @ post"
  shows "\<exists>l. post = l @ CHR 0x0A # fence @ r \<and> CHR 0x0A \<notin> set l"
proof -
  from assms(2) have "\<exists>l. b = fence @ l"
    by (cases b; cases "tl b"; cases "tl (tl b)") (auto simp: fence_def)
  then obtain l where l: "b = fence @ l" ..
  with assms(2) have "post = l @ CHR 0x0A # fence @ r" by simp
  moreover from assms(1) l have "CHR 0x0A \<notin> set l"
    by (auto simp: list_all_iff in_class.simps)
  ultimately show ?thesis by blast
qed
lemma bad_tag_no_match:
  assumes "\<not> list_all (in_class Word) tag" and "CHR 0x0A \<notin> set tag"
  shows "match_here codeBlockRegex pv (fence @ tag @ CHR 0x0A # following) = None"
proof (rule ccontr)
  assume "match_here codeBlockRegex pv (fence @ tag @ CHR 0x0A # following) \<noteq> None"
  then obtain s' where "match_here codeBlockRegex pv (fence @ tag @ CHR 0x0A # following) = Some s'" by auto
  from match_here_codeBlock_shape[OF this] obtain t b where t: "list_all (in_class Word) t"
    and "fence @ tag @ CHR 0x0A # following = fence @ t @ CHR 0x0A # b @ CHR 0x0A # fence @ rest s'"
    by blast
  then have "t @ CHR 0x0A # b @ CHR 0x0A # fence @ rest s' = tag @ CHR 0x0A # following"
    by simp
  with tag_mismatch[OF assms t] show False by blast
qed
lemma empty_body_no_match:
  assumes "list_all (in_class Word) tag"
    and "\<not> (\<exists>l r. post = l @ CHR 0x0A # fence @ r \<and> CHR 0x0A \<notin> set l)"
  shows "match_here codeBlockRegex pv (fence @ tag @ CHR 0x0A # fence @ post) = None"
proof (rule ccontr)
  assume "match_here codeBlockRegex pv (fence @ tag @ CHR 0x0A # fence @ post) \<noteq> None"
  then obtain s' where "match_here codeBlockRegex pv (fence @ tag @ CHR 0x0A # fence @ post) = Some s'" by auto
  from match_here_codeBlock_shape[OF this] obtain t b where tb:
    "list_all (in_class Word) t" "list_all (in_class AnyNotNL) b"
    and "fence @ tag @ CHR 0x0A # fence @ post
          = fence @ t @ CHR 0x0A # b @ CHR 0x0A # fence @ rest s'"
    by blast
  then have eq: "t @ CHR 0x0A # b @ CHR 0x0A # fence @ rest s' = tag @ CHR 0x0A # fence @ post"
    by simp
  from word_tag_unique[OF tb(1) assms(1) eq] have "b @ CHR 0x0A # fence @ rest s' = fence @ post" by simp
  from body_starts_with_fence[OF tb(2) this] assms(2) show False by blast
qed
lemma search_None:
  "(\<And>pv' u. suffix u str \<Longrightarrow> match_here r pv' u = None) \<Longrightarrow> search r pv str = None"
proof (induction str arbitrary: pv)
  case Nil
  then show ?case by simp
next
  case (Cons c cs)
  have "match_here r pv (c # cs) = None" by (rule Cons.prems) simp
  moreover have "search r (Some c) cs = None"
    by (rule Cons.IH) (auto intro: Cons.prems suffix_ConsI)
  ultimately show ?case by simp
qed
lemma no_blocks:
  assumes "search codeBlockRegex None text = None"
  shows "CodeBlocks (processMarkdown text filePath) = []"
  using assms by (simp add: processMarkdown_def FindAllStringSubmatch_def Let_def)

lemma count_fence: "count_list fence (CHR 0x60) = 3"
  by (simp add: fence_def)

lemma hd_fence: "fence @ v = c # w \<Longrightarrow> c = CHR 0x60"
  by (simp add: fence_def)

lemma only_opening_fence:
  assumes pre: "CHR 0x60 \<notin> set pre" and six: "count_list (fence @ G) (CHR 0x60) = 6"
    and suf: "suffix u (pre @ fence @ G)" and u: "u = fence @ v"
    and cnt: "6 \<le> count_list u (CHR 0x60)"
  shows "u = fence @ G"
proof -
  from suf consider "suffix u (fence @ G)" | p' where "suffix p' pre" "u = p' @ fence @ G"
    by (auto simp: suffix_append)
  then show ?thesis
  proof cases
    case 1
    then obtain z where z: "fence @ G = z @ u" by (auto simp: suffix_def)
    then have "count_list (fence @ G) (CHR 0x60) = count_list z (CHR 0x60) + count_list u (CHR 0x60)"
      by simp
    with six cnt have z0: "count_list z (CHR 0x60) = 0" by simp
    show ?thesis
    proof (cases z)
      case Nil
      with z show ?thesis by simp
    next
      case (Cons c z')
      with z have "fence @ G = c # (z' @ u)" by simp
      then have "c = CHR 0x60" by (rule hd_fence)
      with Cons z0 show ?thesis by simp
    qed
  next
    case 2
    show ?thesis
    proof (cases p')
      case Nil
      with 2 show ?thesis by simp
    next
      case (Cons c p'')
      with 2(2) u have "fence @ v = c # (p'' @ fence @ G)" by simp
      then have "c = CHR 0x60" by (rule hd_fence)
      moreover from 2(1) Cons have "c \<in> set pre" by (auto simp: suffix_def)
      ultimately show ?thesis using pre by simp
    qed
  qed
qed

lemma isolated_no_blocks:
  assumes pre: "CHR 0x60 \<notin> set pre" and six: "count_list (fence @ G) (CHR 0x60) = 6"
    and nomatch: "\<And>pv. match_here codeBlockRegex pv (fence @ G) = None"
  shows "CodeBlocks (processMarkdown (pre @ fence @ G) filePath) = []"
proof (rule no_blocks, rule search_None)
  fix pv' u
  assume suf: "suffix u (pre @ fence @ G)"
  show "match_here codeBlockRegex pv' u = None"
  proof (rule ccontr)
    assume "match_here codeBlockRegex pv' u \<noteq> None"
    then obtain s' where m: "match_here codeBlockRegex pv' u = Some s'" by auto
    from match_here_codeBlock_shape[OF m] obtain t b where
      u: "u = fence @ t @ CHR 0x0A # b @ CHR 0x0A # fence @ rest s'" by blast
    have "6 \<le> count_list u (CHR 0x60)"
      unfolding u by (simp add: count_fence)
    from only_opening_fence[OF pre six suf u this] m nomatch show False by simp
  qed
qed

lemma word_no_backquote: "list_all (in_class Word) w \<Longrightarrow> CHR 0x60 \<notin> set w"
proof
  assume "list_all (in_class Word) w" and "CHR 0x60 \<in> set w"
  then have "in_class Word (CHR 0x60)" unfolding list_all_iff by blast
  with bq_not_word show False ..
qed

lemma isolated_bad_tag:
  assumes "CHR 0x60 \<notin> set (pre @ tag @ body @ post)"
    and "\<not> list_all (in_class Word) tag" and "CHR 0x0A \<notin> set tag"
  shows "CodeBlocks (processMarkdown
           (pre @ fence @ tag @ CHR 0x0A # body @ CHR 0x0A # fence @ post) filePath) = []"
proof (rule isolated_no_blocks)
  from assms(1) show "CHR 0x60 \<notin> set pre" by simp
  from assms(1) show "count_list (fence @ tag @ CHR 0x0A # body @ CHR 0x0A # fence @ post) (CHR 0x60) = 6"
    by (simp add: count_fence count_list_0_iff)
  show "match_here codeBlockRegex pv (fence @ tag @ CHR 0x0A # body @ CHR 0x0A # fence @ post) = None" for pv
    by (rule bad_tag_no_match[OF assms(2,3)])
qed

lemma isolated_empty_body:
  assumes "CHR 0x60 \<notin> set (pre @ post)" and "list_all (in_class Word) wtag"
  shows "CodeBlocks (processMarkdown (pre @ fence @ wtag @ CHR 0x0A # fence @ post) filePath) = []"
proof (rule isolated_no_blocks)
  from assms(1) show "CHR 0x60 \<notin> set pre" by simp
  from assms(1) word_no_backquote[OF assms(2)]
  show "count_list (fence @ wtag @ CHR 0x0A # fence @ post) (CHR 0x60) = 6"
    by (simp add: count_fence count_list_0_iff)
  have "\<not> (\<exists>l r. post = l @ CHR 0x0A # fence @ r \<and> CHR 0x0A \<notin> set l)"
    using assms(1) by (auto simp: fence_def)
  from empty_body_no_match[OF assms(2) this]
  show "match_here codeBlockRegex pv (fence @ wtag @ CHR 0x0A # fence @ post) = None" for pv .
qed

text \<open>
  A body of more than one line: when the line after the first body line does not begin
  with a fence, no match starts at the opening fence; and in an input whose only
  backquotes are the two fences of such a block, nothing is extracted.
\<close>

lemma line_unique:
  assumes "CHR 0x0A \<notin> set b" and "CHR 0x0A \<notin> set l"
    and "b @ CHR 0x0A # x = l @ CHR 0x0A # y"
  shows "b = l \<and> x = y"
  using assms
proof (induction b arbitrary: l)
  case Nil
  then show ?case by (cases l) auto
next
  case (Cons a b)
  show ?case
  proof (cases l)
    case Nil
    with Cons.prems show ?thesis by auto
  next
    case (Cons c l')
    with Cons.prems Cons.IH[of l'] show ?thesis by auto
  qed
qed

lemma second_line_no_match:
  assumes "list_all (in_class Word) t" and "CHR 0x0A \<notin> set l" and "\<not> prefix fence x"
  shows "match_here codeBlockRegex pv (fence @ t @ CHR 0x0A # l @ CHR 0x0A # x) = None"
proof (rule ccontr)
  assume "match_here codeBlockRegex pv (fence @ t @ CHR 0x0A # l @ CHR 0x0A # x) \<noteq> None"
  then obtain s' where
    "match_here codeBlockRegex pv (fence @ t @ CHR 0x0A # l @ CHR 0x0A # x) = Some s'" by auto
  from match_here_codeBlock_shape[OF this] obtain t' b where tb:
    "list_all (in_class Word) t'" "list_all (in_class AnyNotNL) b"
    and "fence @ t @ CHR 0x0A # l @ CHR 0x0A # x
          = fence @ t' @ CHR 0x0A # b @ CHR 0x0A # fence @ rest s'"
    by blast
  then have eq: "t' @ CHR 0x0A # b @ CHR 0x0A # fence @ rest s' = t @ CHR 0x0A # l @ CHR 0x0A # x"
    by simp
  from word_tag_unique[OF tb(1) assms(1) eq]
  have eq2: "b @ CHR 0x0A # fence @ rest s' = l @ CHR 0x0A # x" by simp
  from tb(2) have "CHR 0x0A \<notin> set b" by (auto simp: list_all_iff in_class.simps)
  from line_unique[OF this assms(2) eq2] have "x = fence @ rest s'" by simp
  with assms(3) show False by simp
qed

lemma isolated_multiline:
  assumes "CHR 0x60 \<notin> set (pre @ l @ m @ post)" and "list_all (in_class Word) t"
    and "CHR 0x0A \<notin> set l"
  shows "CodeBlocks (processMarkdown
           (pre @ fence @ t @ CHR 0x0A # l @ CHR 0x0A # m @ CHR 0x0A # fence @ post) filePath) = []"
proof (rule isolated_no_blocks)
  from assms(1) show "CHR 0x60 \<notin> set pre" by simp
  from assms(1) word_no_backquote[OF assms(2)]
  show "count_list (fence @ t @ CHR 0x0A # l @ CHR 0x0A # m @ CHR 0x0A # fence @ post) (CHR 0x60) = 6"
    by (simp add: count_fence count_list_0_iff)
  have "\<not> prefix fence (m @ CHR 0x0A # fence @ post)"
    using assms(1) by (cases m) (auto simp: fence_def)
  from second_line_no_match[OF assms(2,3) this]
  show "match_here codeBlockRegex pv
          (fence @ t @ CHR 0x0A # l @ CHR 0x0A # m @ CHR 0x0A # fence @ post) = None" for pv .
qed

text \<open>
  Blocks with a body of one line: the match that starts at the opening fence of such a
  block is the block itself, with the info string and the body as its groups, and an
  input that is a sequence of simple blocks yields one fragment for each, in order.
\<close>

lemma concat_map_if:
  "concat (map (\<lambda>x. if Q x then f x else []) xs) = concat (map f (filter Q xs))"
  by (induction xs) auto

lemma ms_Lit_eq:
  "ms (Lit l) s = (if prefix l (rest s)
      then [s\<lparr>prev := (if l = [] then prev s else Some (last l)), rest := drop (length l) (rest s)\<rparr>]
      else [])"
  by simp

lemma star_word_stop:
  "rest s = w @ CHR 0x0A # z \<Longrightarrow> list_all (in_class Word) w \<Longrightarrow>
   filter (\<lambda>s'. prefix [CHR 0x0A] (rest s')) (ms (Star (Class Word)) s)
     = [s\<lparr>prev := (if w = [] then prev s else Some (last w)), rest := CHR 0x0A # z\<rparr>]"
proof (induction w arbitrary: s)
  case Nil
  then have "ms (Star (Class Word)) s = [s]"
    using ms_Star_Class_Cons[of s "CHR 0x0A" z Word] nl_not_word by simp
  with Nil show ?case by simp
next
  case (Cons c w)
  let ?s1 = "s\<lparr>prev := Some c, rest := w @ CHR 0x0A # z\<rparr>"
  from Cons.prems have c: "in_class Word c" and w: "list_all (in_class Word) w" by auto
  from c nl_not_word have cn: "c \<noteq> CHR 0x0A" by auto
  from Cons.prems(1) c have "ms (Star (Class Word)) s = ms (Star (Class Word)) ?s1 @ [s]"
    using ms_Star_Class_Cons[of s c "w @ CHR 0x0A # z" Word] by simp
  moreover have "filter (\<lambda>s'. prefix [CHR 0x0A] (rest s')) (ms (Star (Class Word)) ?s1)
     = [?s1\<lparr>prev := (if w = [] then prev ?s1 else Some (last w)), rest := CHR 0x0A # z\<rparr>]"
    by (rule Cons.IH) (use w in auto)
  ultimately show ?case using Cons.prems(1) cn by simp
qed

lemma lazy_line_stop:
  "rest s = b @ CHR 0x0A # z \<Longrightarrow> CHR 0x0A \<notin> set b \<Longrightarrow>
   filter (\<lambda>s'. prefix [CHR 0x0A] (rest s')) (ms (LazyStar (Class AnyNotNL)) s)
     = [s\<lparr>prev := (if b = [] then prev s else Some (last b)), rest := CHR 0x0A # z\<rparr>]"
proof (induction b arbitrary: s)
  case Nil
  then have "ms (LazyStar (Class AnyNotNL)) s = [s]"
    using ms_LazyStar_Class_Cons[of s "CHR 0x0A" z AnyNotNL] by (simp add: in_class.simps)
  with Nil show ?case by simp
next
  case (Cons c b)
  let ?s1 = "s\<lparr>prev := Some c, rest := b @ CHR 0x0A # z\<rparr>"
  from Cons.prems have cn: "c \<noteq> CHR 0x0A" and b: "CHR 0x0A \<notin> set b" by auto
  from Cons.prems(1) cn have "ms (LazyStar (Class AnyNotNL)) s = s # ms (LazyStar (Class AnyNotNL)) ?s1"
    using ms_LazyStar_Class_Cons[of s c "b @ CHR 0x0A # z" AnyNotNL] by (simp add: in_class.simps)
  moreover have "filter (\<lambda>s'. prefix [CHR 0x0A] (rest s')) (ms (LazyStar (Class AnyNotNL)) ?s1)
     = [?s1\<lparr>prev := (if b = [] then prev ?s1 else Some (last b)), rest := CHR 0x0A # z\<rparr>]"
    by (rule Cons.IH) (use b in auto)
  ultimately show ?case using Cons.prems(1) cn by simp
qed


lemma concat_map_stop:
  assumes "\<And>x. x \<in> set xs \<Longrightarrow> \<not> Q x \<Longrightarrow> g x = []" and "filter Q xs = [y]"
  shows "concat (map g xs) = g y"
proof -
  have "concat (map g xs) = concat (map (\<lambda>x. if Q x then g x else []) xs)"
    using assms(1) by (intro arg_cong[where f = concat] map_cong) auto
  also have "\<dots> = concat (map g (filter Q xs))" by (rule concat_map_if)
  finally show ?thesis using assms(2) by simp
qed

lemma body_part:
  assumes r: "rest s = b @ CHR 0x0A # fence @ r" and b: "CHR 0x0A \<notin> set b"
  shows "ms (Seq (Group 2 (LazyStar (Class AnyNotNL))) (Lit (CHR 0x0A # fence))) s
           = [\<lparr>prev = Some (CHR 0x60), rest = r, caps = (2, b) # caps s\<rparr>]"
proof -
  let ?Q = "\<lambda>s'. prefix [CHR 0x0A] (rest s')"
  let ?cap = "\<lambda>s'. s'\<lparr>caps := (2, take (length (rest s) - length (rest s')) (rest s)) # caps s'\<rparr>"
  let ?g = "\<lambda>s'. ms (Lit (CHR 0x0A # fence)) (?cap s')"
  let ?end = "s\<lparr>prev := (if b = [] then prev s else Some (last b)), rest := CHR 0x0A # fence @ r\<rparr>"
  have "ms (Seq (Group 2 (LazyStar (Class AnyNotNL))) (Lit (CHR 0x0A # fence))) s
          = concat (map ?g (ms (LazyStar (Class AnyNotNL)) s))"
    by (simp add: comp_def)
  also have "\<dots> = ?g ?end"
  proof (rule concat_map_stop[where Q = ?Q])
    show "?g x = []" if "\<not> ?Q x" for x
      using that by (cases "rest x") auto
    show "filter ?Q (ms (LazyStar (Class AnyNotNL)) s) = [?end]"
      by (rule lazy_line_stop[OF r b])
  qed
  also have "\<dots> = [\<lparr>prev = Some (CHR 0x60), rest = r, caps = (2, b) # caps s\<rparr>]"
    using r by (simp add: fence_def)
  finally show ?thesis .
qed

lemma tag_part:
  assumes r: "rest s = t @ CHR 0x0A # y" and t: "list_all (in_class Word) t"
  shows "ms (Seq (Opt (Group 1 (Plus (Class Word)))) (Seq (Lit [CHR 0x0A]) r3)) s
           = ms r3 (s\<lparr>prev := Some (CHR 0x0A), rest := y,
                       caps := (if t = [] then caps s else (1, t) # caps s)\<rparr>)"
proof (cases t)
  case Nil
  with r have "ms (Class Word) s = []" using nl_not_word by simp
  then have "ms (Opt (Group 1 (Plus (Class Word)))) s = [s]" by (simp add: Plus_def)
  with r Nil show ?thesis by simp
next
  case (Cons c w)
  let ?s1 = "s\<lparr>prev := Some c, rest := w @ CHR 0x0A # y\<rparr>"
  let ?Q = "\<lambda>s'. prefix [CHR 0x0A] (rest s')"
  let ?cap = "\<lambda>s'. s'\<lparr>caps := (1, take (length (rest s) - length (rest s')) (rest s)) # caps s'\<rparr>"
  let ?g = "\<lambda>s'. ms (Seq (Lit [CHR 0x0A]) r3) (?cap s')"
  let ?end = "?s1\<lparr>prev := (if w = [] then prev ?s1 else Some (last w)), rest := CHR 0x0A # y\<rparr>"
  from t Cons have c: "in_class Word c" and w: "list_all (in_class Word) w" by auto
  from c nl_not_word have cn: "c \<noteq> CHR 0x0A" by auto
  from r Cons c have cl: "ms (Class Word) s = [?s1]" by simp
  have pl: "ms (Plus (Class Word)) s = ms (Star (Class Word)) ?s1"
    unfolding Plus_def ms.simps(3) cl by simp
  have "ms (Seq (Opt (Group 1 (Plus (Class Word)))) (Seq (Lit [CHR 0x0A]) r3)) s
          = concat (map (ms (Seq (Lit [CHR 0x0A]) r3))
                        (map ?cap (ms (Plus (Class Word)) s) @ [s]))"
    by (simp only: ms.simps(3,4,7))
  also have "\<dots> = concat (map ?g (ms (Star (Class Word)) ?s1)) @ ms (Seq (Lit [CHR 0x0A]) r3) s"
    unfolding pl by (simp del: ms.simps(1,2,3,4,7,8,9) add: comp_def)
  also have "ms (Seq (Lit [CHR 0x0A]) r3) s = []"
    using r Cons cn by simp
  also have "concat (map ?g (ms (Star (Class Word)) ?s1)) = ?g ?end"
  proof (rule concat_map_stop[where Q = ?Q])
    show "?g x = []" if "\<not> ?Q x" for x
      using that by (cases "rest x") auto
    show "filter ?Q (ms (Star (Class Word)) ?s1) = [?end]"
      by (rule star_word_stop) (use w in auto)
  qed
  also have "?g ?end = ms r3 (s\<lparr>prev := Some (CHR 0x0A), rest := y,
                       caps := (if t = [] then caps s else (1, t) # caps s)\<rparr>)"
    using r Cons by (cases s) simp
  finally show ?thesis by simp
qed

lemma match_here_block:
  assumes "list_all (in_class Word) t" and "CHR 0x0A \<notin> set b"
  shows "match_here codeBlockRegex pv (fence @ t @ CHR 0x0A # b @ CHR 0x0A # fence @ r)
           = Some \<lparr>prev = Some (CHR 0x60), rest = r,
                   caps = (if t = [] then [(2, b)] else [(2, b), (1, t)])\<rparr>"
proof -
  let ?s0 = "\<lparr>prev = pv, rest = fence @ t @ CHR 0x0A # b @ CHR 0x0A # fence @ r, caps = []\<rparr>"
  let ?s1 = "\<lparr>prev = Some (CHR 0x60), rest = t @ CHR 0x0A # b @ CHR 0x0A # fence @ r, caps = []\<rparr>"
  let ?s3 = "?s1\<lparr>prev := Some (CHR 0x0A), rest := b @ CHR 0x0A # fence @ r,
                   caps := (if t = [] then caps ?s1 else (1, t) # caps ?s1)\<rparr>"
  let ?r4 = "Seq (Group 2 (LazyStar (Class AnyNotNL))) (Lit (CHR 0x0A # fence))"
  have "ms codeBlockRegex ?s0
          = ms (Seq (Opt (Group 1 (Plus (Class Word)))) (Seq (Lit [CHR 0x0A]) ?r4)) ?s1"
    by (simp add: codeBlockRegex_def fence_def)
  also have "\<dots> = ms ?r4 ?s3"
    by (rule tag_part) (use assms(1) in auto)
  also have "\<dots> = [\<lparr>prev = Some (CHR 0x60), rest = r, caps = (2, b) # caps ?s3\<rparr>]"
    by (rule body_part) (use assms(2) in auto)
  finally show ?thesis by (simp add: match_here_def)
qed

lemma match_here_needs_fence: "c \<noteq> CHR 0x60 \<Longrightarrow> match_here codeBlockRegex pv (c # x) = None"
proof (rule ccontr)
  assume c: "c \<noteq> CHR 0x60" and "match_here codeBlockRegex pv (c # x) \<noteq> None"
  then obtain s' where "match_here codeBlockRegex pv (c # x) = Some s'" by auto
  from match_here_codeBlock_shape[OF this] obtain v where "c # x = fence @ v" by blast
  with c show False by (simp add: fence_def)
qed

lemma match_here_Nil: "match_here codeBlockRegex pv [] = None"
proof (rule ccontr)
  assume "match_here codeBlockRegex pv [] \<noteq> None"
  then obtain s' where "match_here codeBlockRegex pv [] = Some s'" by auto
  from match_here_codeBlock_shape[OF this] show False by (simp add: fence_def)
qed

lemma search_skip:
  "CHR 0x60 \<notin> set p \<Longrightarrow> (\<And>pv'. match_here codeBlockRegex pv' F = Some s') \<Longrightarrow>
     search codeBlockRegex pv (p @ F) = Some (F, s')"
proof (induction p arbitrary: pv)
  case Nil
  then show ?case by simp
next
  case (Cons c p)
  from Cons.prems(1) have "match_here codeBlockRegex pv (c # p @ F) = None"
    by (intro match_here_needs_fence) auto
  moreover have "search codeBlockRegex (Some c) (p @ F) = Some (F, s')"
    by (rule Cons.IH) (use Cons.prems in auto)
  ultimately show ?case by simp
qed

lemma search_no_fence:
  "CHR 0x60 \<notin> set tail \<Longrightarrow> search codeBlockRegex pv tail = None"
proof (induction tail arbitrary: pv)
  case Nil
  then show ?case by (simp add: match_here_Nil)
next
  case (Cons c tail)
  then have "match_here codeBlockRegex pv (c # tail) = None"
    by (intro match_here_needs_fence) auto
  with Cons show ?case by simp
qed

lemma NumSubexp_codeBlock: "NumSubexp codeBlockRegex = 2"
  by (simp add: codeBlockRegex_def Plus_def)

lemma allMatches_blocks:
  "list_all simple_block blocks \<Longrightarrow> CHR 0x60 \<notin> set tail \<Longrightarrow>
     map blockOfMatch (allMatches codeBlockRegex pv (render blocks tail) after)
       = map block_of blocks"
proof (induction blocks arbitrary: pv after)
  case Nil
  then have "search codeBlockRegex pv tail = None" by (intro search_no_fence)
  then show ?case by (subst allMatches.simps) simp
next
  case (Cons x blocks)
  obtain p t b where x: "x = (p, t, b)" by (cases x) auto
  from Cons.prems(1) have sb: "simple_block x" and rest': "list_all simple_block blocks"
    by simp_all
  from sb x have p: "CHR 0x60 \<notin> set p" and t: "list_all (in_class Word) t"
    and b: "CHR 0x0A \<notin> set b"
    by (simp_all add: simple_block_def)
  let ?F = "fence @ t @ CHR 0x0A # b @ CHR 0x0A # fence @ render blocks tail"
  let ?s' = "\<lparr>prev = Some (CHR 0x60), rest = render blocks tail,
              caps = (if t = [] then [(2, b)] else [(2, b), (1, t)])\<rparr>"
  have se: "search codeBlockRegex pv (p @ ?F) = Some (?F, ?s')"
    by (rule search_skip[OF p]) (rule match_here_block[OF t b])
  have sm: "blockOfMatch (submatches codeBlockRegex ?F ?s') = block_of x"
    by (simp add: submatches_def NumSubexp_codeBlock upt_rec blockOfMatch_def block_of_def x)
  have len: "length (render blocks tail) < length (p @ ?F)" by simp
  have "allMatches codeBlockRegex pv (render (x # blocks) tail) after
          = submatches codeBlockRegex ?F ?s'
            # allMatches codeBlockRegex (Some (CHR 0x60)) (render blocks tail) True"
    unfolding x render.simps by (subst allMatches.simps) (simp only: se len, simp)
  with sm Cons.IH[OF rest' Cons.prems(2)] show ?case by simp
qed

lemma processMarkdown_simple_blocks:
  assumes "list_all simple_block blocks" and "CHR 0x60 \<notin> set tail"
  shows "CodeBlocks (processMarkdown (render blocks tail) filePath) = map block_of blocks"
  using allMatches_blocks[OF assms, of None False]
  by (simp add: processMarkdown_def FindAllStringSubmatch_def Let_def)

section \<open>Properties of the content extractor\<close>

lemma processFiles_acc:
  "processFiles p readFile files contents out =
     (contents @ concat (map (\<lambda>file. case ProcessFile p readFile file of
                                        Inl e \<Rightarrow> [] | Inr c \<Rightarrow> [c]) files),
      out @ map (\<lambda>file. case ProcessFile p readFile file of
                           Inl e \<Rightarrow> Warning file e | Inr c \<Rightarrow> Processed file) files)"
  by (induction files arbitrary: contents out) (auto split: sum.splits)

lemma ProcessFile_Inl:
  "ProcessFile p readFile file = Inl e \<Longrightarrow>
     (e = ReadError \<and> readFile file = None) \<or>
     (e = PathError \<and> readFile file \<noteq> None \<and> Rel (repoPath p) file = None)"
  by (auto simp: ProcessFile_def Let_def split: option.splits)

lemma ProcessFile_Inr:
  "ProcessFile p readFile file = Inr c \<Longrightarrow>
     \<exists>fileContent relPath.
        readFile file = Some fileContent \<and> Rel (repoPath p) file = Some relPath \<and>
        Source c = relPath \<and> Content c = fileContent \<and>
        (if Ext file = ''.md''
         then c = processMarkdown fileContent relPath \<and> Type c = ''markdown''
         else c = processCode fileContent (Ext file) relPath \<and> Type c = ''code'')"
  by (auto simp: ProcessFile_def processMarkdown_def processCode_def Let_def split: option.splits)

text \<open>
  The scenario of the specification: a README with a heading, a line of prose and a
  fenced block with a one-line body, and a Go file with a comment of two lines.
\<close>

lemma round_trip_scenario:
  "processFiles
     \<lparr>repoPath = ''/r'', includeDirs = [], excludeDirs = [], fileTypes = [''.md'', ''.go'']\<rparr>
     (\<lambda>f. if f = ''/r/README.md''
             then Some ''# Demo\<newline>A prose line.\<newline>```python\<newline>print(1)\<newline>```\<newline>''
           else if f = ''/r/main.go''
             then Some ''// Package main\<newline>// runs it.\<newline>package main\<newline>''
           else None)
     [''/r/README.md'', ''/r/main.go''] [] []
   = ([\<lparr>Title = ''Demo'', Description = ''A prose line.'', Source = ''README.md'',
        Content = ''# Demo\<newline>A prose line.\<newline>```python\<newline>print(1)\<newline>```\<newline>'',
        CodeBlocks = [\<lparr>Language = ''python'', Code = ''print(1)'', Embedding = None\<rparr>],
        Type = ''markdown''\<rparr>,
       \<lparr>Title = ''main.go'', Description = ''Package main\<newline> runs it.'', Source = ''main.go'',
        Content = ''// Package main\<newline>// runs it.\<newline>package main\<newline>'',
        CodeBlocks = [\<lparr>Language = ''go'',
                       Code = ''// Package main\<newline>// runs it.\<newline>package main\<newline>'',
                       Embedding = None\<rparr>],
        Type = ''code''\<rparr>],
      [Processed ''/r/README.md'', Processed ''/r/main.go''])"
  by code_simp

text \<open>
  C1. A fenced block whose body has more than one line is lost: the dot of the pattern
  does not match a newline, so the body group never spans two lines. The input with the
  one block tagged \<open>go\<close> and the body lines \<open>a\<close> and \<open>b\<close> yields no fragment at all; and
  when a block tagged \<open>py\<close> with a one-line body follows, that second block is the only
  fragment. (Blocks with one-line bodies are extracted as intended,
  \<open>processMarkdown_simple_blocks\<close>; blocks with longer bodies never are,
  \<open>second_line_no_match\<close> and \<open>isolated_multiline\<close>.)
\<close>

theorem processMarkdown_multiline_block_lost:
  "CodeBlocks (processMarkdown ''```go\<newline>a\<newline>b\<newline>```'' ''README.md'') = [] \<and>
   CodeBlocks (processMarkdown
      ''```go\<newline>a\<newline>b\<newline>```\<newline>```py\<newline>c\<newline>```'' ''README.md'')
     = [\<lparr>Language = ''py'', Code = ''c'', Embedding = None\<rparr>]"
  by (simp add: processMarkdown_def FindAllStringSubmatch_def codeBlockRegex_def fence_def
        Plus_def submatches_def blockOfMatch_def match_here_def ms.simps(5,6) in_class.simps
        upt_rec Let_def)

text \<open>
  C6. \<open>processCode\<close> returns exactly one fragment: its code is the whole content,
  unchanged, and its language is the entry of the extension in the fixed table, or
  \<open>text\<close> when the table has no such entry. \<open>ProcessFile\<close> hands every readable file
  whose extension is not \<open>.md\<close> to \<open>processCode\<close>, with the content it read.
\<close>

theorem processCode_single_fragment:
  "CodeBlocks (processCode content fileExt filePath) =
     [\<lparr>Language =
         (if fileExt = ''.go'' then ''go''
          else if fileExt = ''.py'' then ''python''
          else if fileExt = ''.js'' then ''javascript''
          else if fileExt = ''.jsx'' then ''jsx''
          else if fileExt = ''.ts'' then ''typescript''
          else if fileExt = ''.tsx'' then ''tsx''
          else if fileExt = ''.html'' then ''html''
          else if fileExt = ''.css'' then ''css''
          else if fileExt = ''.json'' then ''json''
          else if fileExt = ''.yaml'' then ''yaml''
          else if fileExt = ''.yml'' then ''yaml''
          else ''text''),
       Code = content, Embedding = None\<rparr>] \<and>
   Content (processCode content fileExt filePath) = content \<and>
   (readFile file = Some content \<and> Rel (repoPath p) file = Some relPath \<and>
    Ext file \<noteq> ''.md'' \<longrightarrow>
      ProcessFile p readFile file = Inr (processCode content (Ext file) relPath))"
proof -
  have "CodeBlocks (processCode content fileExt filePath) =
     [\<lparr>Language =
         (if fileExt = ''.go'' then ''go''
          else if fileExt = ''.py'' then ''python''
          else if fileExt = ''.js'' then ''javascript''
          else if fileExt = ''.jsx'' then ''jsx''
          else if fileExt = ''.ts'' then ''typescript''
          else if fileExt = ''.tsx'' then ''tsx''
          else if fileExt = ''.html'' then ''html''
          else if fileExt = ''.css'' then ''css''
          else if fileExt = ''.json'' then ''json''
          else if fileExt = ''.yaml'' then ''yaml''
          else if fileExt = ''.yml'' then ''yaml''
          else ''text''),
       Code = content, Embedding = None\<rparr>]"
    by (simp add: processCode_def languageMap_def Let_def)
  moreover have "Content (processCode content fileExt filePath) = content"
    by (simp add: processCode_def Let_def)
  moreover have "readFile file = Some content \<and> Rel (repoPath p) file = Some relPath \<and>
    Ext file \<noteq> ''.md'' \<longrightarrow>
      ProcessFile p readFile file = Inr (processCode content (Ext file) relPath)"
    by (simp add: ProcessFile_def Let_def)
  ultimately show ?thesis by (intro conjI)
qed

theorem processCode_single_fragment_witness:
  "(\<lambda>f. if f = ''/r/src/main.rs'' then Some ''fn main() {}'' else None) ''/r/src/main.rs''
     = Some ''fn main() {}'' \<and>
   Rel ''/r'' ''/r/src/main.rs'' = Some ''src/main.rs'' \<and>
   Ext ''/r/src/main.rs'' \<noteq> ''.md'' \<and>
   ProcessFile \<lparr>repoPath = ''/r'', includeDirs = [], excludeDirs = [], fileTypes = [''.rs'']\<rparr>
     (\<lambda>f. if f = ''/r/src/main.rs'' then Some ''fn main() {}'' else None) ''/r/src/main.rs''
     = Inr (processCode ''fn main() {}'' ''.rs'' ''src/main.rs'') \<and>
   CodeBlocks (processCode ''fn main() {}'' ''.rs'' ''src/main.rs'')
     = [\<lparr>Language = ''text'', Code = ''fn main() {}'', Embedding = None\<rparr>] \<and>
   CodeBlocks (processCode ''package main'' ''.go'' ''main.go'')
     = [\<lparr>Language = ''go'', Code = ''package main'', Embedding = None\<rparr>]"
proof -
  let ?rd = "\<lambda>f. if f = ''/r/src/main.rs'' then Some ''fn main() {}'' else None"
  let ?p = "\<lparr>repoPath = ''/r'', includeDirs = [], excludeDirs = [], fileTypes = [''.rs'']\<rparr>"
  have ext: "Ext ''/r/src/main.rs'' = ''.rs''" by (simp add: Ext_def)
  have rel: "Rel ''/r'' ''/r/src/main.rs'' = Some ''src/main.rs''" by (simp add: Rel_def)
  from processCode_single_fragment[of "''fn main() {}''" "''.rs''" "''src/main.rs''" ?rd
      "''/r/src/main.rs''" ?p "''src/main.rs''"]
    processCode_single_fragment[of "''package main''" "''.go''" "''main.go''" ?rd
      "''/r/src/main.rs''" ?p "''src/main.rs''"]
    ext rel
  show ?thesis by simp
qed

text \<open>
  C9. \<open>ProcessFile\<close> fails for a file only with the read error or with the path error,
  and otherwise returns the whole record that \<open>processMarkdown\<close> or \<open>processCode\<close> builds
  from the content it read. The loop of \<open>generateDocs\<close> absorbs a failure: it prints a
  warning for that file and goes on, so the records it ends with are those of the files
  that were processed, one each, in the order of selection, and every file has its line
  of output.
\<close>

theorem processFiles_skips_failed_files:
  "(ProcessFile p readFile file = Inl e \<longrightarrow>
      (e = ReadError \<and> readFile file = None) \<or>
      (e = PathError \<and> readFile file \<noteq> None \<and> Rel (repoPath p) file = None)) \<and>
   (ProcessFile p readFile file = Inr c \<longrightarrow>
      (\<exists>fileContent relPath.
          readFile file = Some fileContent \<and> Rel (repoPath p) file = Some relPath \<and>
          Source c = relPath \<and> Content c = fileContent \<and>
          (if Ext file = ''.md''
           then c = processMarkdown fileContent relPath \<and> Type c = ''markdown''
           else c = processCode fileContent (Ext file) relPath \<and> Type c = ''code''))) \<and>
   processFiles p readFile files [] [] =
     (concat (map (\<lambda>file. case ProcessFile p readFile file of
                             Inl e \<Rightarrow> [] | Inr c \<Rightarrow> [c]) files),
      map (\<lambda>file. case ProcessFile p readFile file of
                     Inl e \<Rightarrow> Warning file e | Inr c \<Rightarrow> Processed file) files)"
  using ProcessFile_Inl[of p readFile "file" e] ProcessFile_Inr[of p readFile "file" c]
    processFiles_acc[of p readFile files "[]" "[]"]
  by simp

theorem processFiles_skips_failed_files_witness:
  "ProcessFile \<lparr>repoPath = ''/r'', includeDirs = [], excludeDirs = [], fileTypes = [''.md'']\<rparr>
     (\<lambda>f. if f = ''/r/a.md'' then Some ''# A'' else if f = ''/r/c.go'' then Some ''package c''
           else None) ''/r/b.md'' = Inl ReadError \<and>
   ProcessFile \<lparr>repoPath = ''/r'', includeDirs = [], excludeDirs = [], fileTypes = [''.md'']\<rparr>
     (\<lambda>f. if f = ''/r/a.md'' then Some ''# A'' else if f = ''/r/c.go'' then Some ''package c''
           else None) ''/r/c.go'' = Inr (processCode ''package c'' ''.go'' ''c.go'') \<and>
   processFiles \<lparr>repoPath = ''/r'', includeDirs = [], excludeDirs = [], fileTypes = [''.md'']\<rparr>
     (\<lambda>f. if f = ''/r/a.md'' then Some ''# A'' else if f = ''/r/c.go'' then Some ''package c''
           else None) [''/r/a.md'', ''/r/b.md'', ''/r/c.go''] [] []
     = ([processMarkdown ''# A'' ''a.md'', processCode ''package c'' ''.go'' ''c.go''],
        [Processed ''/r/a.md'', Warning ''/r/b.md'' ReadError, Processed ''/r/c.go''])"
proof -
  let ?p = "\<lparr>repoPath = ''/r'', includeDirs = [], excludeDirs = [], fileTypes = [''.md'']\<rparr>"
  let ?rd = "\<lambda>f. if f = ''/r/a.md'' then Some ''# A'' else if f = ''/r/c.go'' then Some ''package c''
           else None"
  have a: "ProcessFile ?p ?rd ''/r/a.md'' = Inr (processMarkdown ''# A'' ''a.md'')"
    by (simp add: ProcessFile_def Rel_def Ext_def Let_def)
  have b: "ProcessFile ?p ?rd ''/r/b.md'' = Inl ReadError"
    by (simp add: ProcessFile_def)
  have c: "ProcessFile ?p ?rd ''/r/c.go'' = Inr (processCode ''package c'' ''.go'' ''c.go'')"
    by (simp add: ProcessFile_def Rel_def Ext_def Let_def)
  from processFiles_skips_failed_files[of ?p ?rd "''/r/b.md''" ReadError
      "processCode ''package c'' ''.go'' ''c.go''" "[''/r/a.md'', ''/r/b.md'', ''/r/c.go'']"]
    a b c
  show ?thesis by simp
qed

text \<open>
  C10 (as amended). No match of the pattern starts at the opening fence of a block
  whose info string holds a character outside the word class. None starts at the
  opening fence of a block with no line between its fences, unless the line after its
  closing fence begins with a fence again. In an input whose only backquotes are the two
  fences of one such block, no fragment at all is extracted: the block is dropped, not
  labelled \<open>text\<close>.
\<close>

theorem dropped_blocks:
  "(\<not> list_all (in_class Word) tag \<and> CHR 0x0A \<notin> set tag \<longrightarrow>
      match_here codeBlockRegex pv (fence @ tag @ CHR 0x0A # following) = None) \<and>
   (list_all (in_class Word) wtag \<and>
    \<not> (\<exists>l r. post = l @ CHR 0x0A # fence @ r \<and> CHR 0x0A \<notin> set l) \<longrightarrow>
      match_here codeBlockRegex pv (fence @ wtag @ CHR 0x0A # fence @ post) = None) \<and>
   (CHR 0x60 \<notin> set (pre @ tag @ body @ post) \<and>
    \<not> list_all (in_class Word) tag \<and> CHR 0x0A \<notin> set tag \<longrightarrow>
      CodeBlocks (processMarkdown
        (pre @ fence @ tag @ CHR 0x0A # body @ CHR 0x0A # fence @ post) filePath) = []) \<and>
   (CHR 0x60 \<notin> set (pre @ post) \<and> list_all (in_class Word) wtag \<longrightarrow>
      CodeBlocks (processMarkdown (pre @ fence @ wtag @ CHR 0x0A # fence @ post) filePath) = [])"
  using bad_tag_no_match[of tag pv following] empty_body_no_match[of wtag post pv]
    isolated_bad_tag[of pre tag body post filePath] isolated_empty_body[of pre post wtag filePath]
  by blast

theorem dropped_blocks_witness:
  "\<not> list_all (in_class Word) ''c++'' \<and> CHR 0x0A \<notin> set ''c++'' \<and>
   list_all (in_class Word) ''go'' \<and>
   match_here codeBlockRegex None (fence @ ''c++'' @ CHR 0x0A # ''int x;'') = None \<and>
   match_here codeBlockRegex None (fence @ ''go'' @ CHR 0x0A # fence @ ''\<newline>'') = None \<and>
   CodeBlocks (processMarkdown
     (''# T\<newline>'' @ fence @ ''c++'' @ CHR 0x0A # ''int x;'' @ CHR 0x0A # fence @ ''\<newline>'')
     ''README.md'') = [] \<and>
   CodeBlocks (processMarkdown (''# T\<newline>'' @ fence @ ''go'' @ CHR 0x0A # fence @ ''\<newline>'')
     ''README.md'') = []"
proof -
  have bad: "\<not> list_all (in_class Word) ''c++''" "CHR 0x0A \<notin> set ''c++''"
    by (simp_all add: in_class.simps)
  have good: "list_all (in_class Word) ''go''" by (simp add: in_class.simps)
  have post: "\<not> (\<exists>l r. ''\<newline>'' = l @ CHR 0x0A # fence @ r \<and> CHR 0x0A \<notin> set l)"
    by (simp add: fence_def Cons_eq_append_conv)
  have free: "CHR 0x60 \<notin> set (''# T\<newline>'' @ ''c++'' @ ''int x;'' @ ''\<newline>'')"
    "CHR 0x60 \<notin> set (''# T\<newline>'' @ ''\<newline>'')" by simp_all
  from dropped_blocks[of "''c++''" None "''int x;''" "''go''" "''\<newline>''" "''# T\<newline>''"
      "''int x;''" "''README.md''"] bad good post free
  show ?thesis by simp
qed

text \<open>
  The claim as stated fails when a block without a body line is followed at once by
  another fence: the first of two such blocks, tagged \<open>go\<close>, is matched from its opening
  fence, with the second block's opening fence as the end of the match, and contributes a
  fragment labelled \<open>go\<close> whose code is its own closing fence.
\<close>

theorem dropped_blocks_counterexample:
  "CodeBlocks (processMarkdown ''```go\<newline>```\<newline>```py\<newline>```'' ''README.md'')
     = [\<lparr>Language = ''go'', Code = ''```'', Embedding = None\<rparr>]"
  by (simp add: processMarkdown_def FindAllStringSubmatch_def codeBlockRegex_def fence_def
        Plus_def submatches_def blockOfMatch_def match_here_def ms.simps(5,6) in_class.simps
        upt_rec Let_def)

section \<open>Properties of the embedding annotator\<close>

lemma same_block_refl: "same_block b b"
  by (simp add: same_block_def)

lemma same_blocks_refl: "list_all2 same_block bs bs"
  by (simp add: list_all2_refl same_block_refl)

lemma same_record_refl: "same_record c c"
  by (simp add: same_record_def same_blocks_refl)

lemma embedBlocks_frame:
  "embedBlocks client bs sent = (e, bs', sent') \<Longrightarrow> list_all2 same_block bs bs'"
proof (induction bs arbitrary: sent e bs' sent')
  case Nil
  then show ?case by simp
next
  case (Cons b bs)
  show ?case
  proof (cases "Code b = []")
    case True
    with Cons.prems obtain bs1 where "embedBlocks client bs sent = (e, bs1, sent')" "bs' = b # bs1"
      by (auto split: prod.splits)
    with Cons.IH show ?thesis by (auto simp: same_block_refl)
  next
    case False
    let ?code = "if length (Code b) > 32000 then take 32000 (Code b) else Code b"
    show ?thesis
    proof (cases "client sent ?code")
      case (Inl err)
      with False Cons.prems have "bs' = b # bs" by (auto simp: Let_def)
      then show ?thesis by (simp add: same_blocks_refl same_block_refl)
    next
      case (Inr data)
      let ?b' = "if length data > 0 then b\<lparr>Embedding := Some (map float64 (hd data))\<rparr> else b"
      from Inr False Cons.prems obtain bs1 where
        "embedBlocks client bs (sent @ [?code]) = (e, bs1, sent')" "bs' = ?b' # bs1"
        by (auto simp: Let_def split: prod.splits)
      moreover have "same_block b ?b'" using False by (simp add: same_block_def)
      ultimately show ?thesis using Cons.IH by auto
    qed
  qed
qed

lemma embedContents_frame:
  "embedContents client cs sent = (e, cs', sent') \<Longrightarrow> list_all2 same_record cs cs'"
proof (induction cs arbitrary: sent e cs' sent')
  case Nil
  then show ?case by simp
next
  case (Cons c cs)
  obtain e1 bs1 sent1 where b: "embedBlocks client (CodeBlocks c) sent = (e1, bs1, sent1)"
    by (cases "embedBlocks client (CodeBlocks c) sent") auto
  from embedBlocks_frame[OF b] have c': "same_record c (c\<lparr>CodeBlocks := bs1\<rparr>)"
    by (simp add: same_record_def)
  show ?case
  proof (cases e1)
    case (Some err)
    with b Cons.prems have "cs' = c\<lparr>CodeBlocks := bs1\<rparr> # cs" by simp
    with c' show ?thesis by (simp add: list_all2_refl same_record_refl)
  next
    case None
    with b Cons.prems obtain cs1 where
      "embedContents client cs sent1 = (e, cs1, sent')" "cs' = c\<lparr>CodeBlocks := bs1\<rparr> # cs1"
      by (auto split: prod.splits)
    with Cons.IH c' show ?thesis by auto
  qed
qed

lemma embedBlocks_sent:
  "embedBlocks client bs sent = (e, bs', sent') \<Longrightarrow>
     \<exists>new. sent' = sent @ new \<and> prefix new (block_requests bs) \<and>
       (case e of
          None \<Rightarrow> new = block_requests bs
        | Some err \<Rightarrow> new \<noteq> [] \<and> client (sent @ butlast new) (last new) = Inl err)"
proof (induction bs arbitrary: sent e bs' sent')
  case Nil
  then show ?case by (simp add: block_requests_def)
next
  case (Cons b bs)
  show ?case
  proof (cases "Code b = []")
    case True
    with Cons.prems obtain bs1 where eb: "embedBlocks client bs sent = (e, bs1, sent')"
      by (auto split: prod.splits)
    have br0: "block_requests (b # bs) = block_requests bs"
      using True by (simp add: block_requests_def)
    from Cons.IH[OF eb] show ?thesis unfolding br0 .
  next
    case False
    let ?code = "if length (Code b) > 32000 then take 32000 (Code b) else Code b"
    have br: "block_requests (b # bs) = ?code # block_requests bs"
      using False by (simp add: block_requests_def)
    show ?thesis
    proof (cases "client sent ?code")
      case (Inl err)
      with False Cons.prems have "e = Some err" "sent' = sent @ [?code]" by (auto simp: Let_def)
      with Inl br show ?thesis by (intro exI[of _ "[?code]"]) simp
    next
      case (Inr data)
      from Inr False Cons.prems obtain bs1 where
        "embedBlocks client bs (sent @ [?code]) = (e, bs1, sent')"
        by (auto simp: Let_def split: prod.splits)
      from Cons.IH[OF this] obtain new where new: "sent' = (sent @ [?code]) @ new"
        "prefix new (block_requests bs)"
        "case e of None \<Rightarrow> new = block_requests bs
         | Some err \<Rightarrow> new \<noteq> [] \<and> client ((sent @ [?code]) @ butlast new) (last new) = Inl err"
        by blast
      show ?thesis
      proof (intro exI[of _ "?code # new"] conjI)
        show "sent' = sent @ ?code # new" using new(1) by simp
        show "prefix (?code # new) (block_requests (b # bs))" using new(2) br by simp
        show "case e of None \<Rightarrow> ?code # new = block_requests (b # bs)
              | Some err \<Rightarrow> ?code # new \<noteq> [] \<and>
                  client (sent @ butlast (?code # new)) (last (?code # new)) = Inl err"
          using new(3) br by (cases e) auto
      qed
    qed
  qed
qed

lemma embedContents_sent:
  "embedContents client cs sent = (e, cs', sent') \<Longrightarrow>
     \<exists>new. sent' = sent @ new \<and> prefix new (requests cs) \<and>
       (case e of
          None \<Rightarrow> new = requests cs
        | Some err \<Rightarrow> new \<noteq> [] \<and> client (sent @ butlast new) (last new) = Inl err)"
proof (induction cs arbitrary: sent e cs' sent')
  case Nil
  then show ?case by (simp add: requests_def)
next
  case (Cons c cs)
  obtain e1 bs1 sent1 where b: "embedBlocks client (CodeBlocks c) sent = (e1, bs1, sent1)"
    by (cases "embedBlocks client (CodeBlocks c) sent") auto
  from embedBlocks_sent[OF b] obtain new1 where n1: "sent1 = sent @ new1"
    "prefix new1 (block_requests (CodeBlocks c))"
    "case e1 of None \<Rightarrow> new1 = block_requests (CodeBlocks c)
     | Some err \<Rightarrow> new1 \<noteq> [] \<and> client (sent @ butlast new1) (last new1) = Inl err"
    by blast
  have rq: "requests (c # cs) = block_requests (CodeBlocks c) @ requests cs"
    by (simp add: requests_def)
  show ?case
  proof (cases e1)
    case (Some err)
    with b Cons.prems have "e = Some err" "sent' = sent1" by auto
    with n1 Some rq show ?thesis by (intro exI[of _ new1]) (auto intro: prefix_prefix)
  next
    case None
    with b Cons.prems obtain cs1 where "embedContents client cs sent1 = (e, cs1, sent')"
      by (auto split: prod.splits)
    from Cons.IH[OF this] obtain new where new: "sent' = sent1 @ new" "prefix new (requests cs)"
      "case e of None \<Rightarrow> new = requests cs
       | Some err \<Rightarrow> new \<noteq> [] \<and> client (sent1 @ butlast new) (last new) = Inl err"
      by blast
    from None n1(3) have n1eq: "new1 = block_requests (CodeBlocks c)" by simp
    show ?thesis
    proof (intro exI[of _ "new1 @ new"] conjI)
      show "sent' = sent @ new1 @ new" using new(1) n1(1) by simp
      show "prefix (new1 @ new) (requests (c # cs))" using new(2) n1eq rq by simp
      show "case e of None \<Rightarrow> new1 @ new = requests (c # cs)
            | Some err \<Rightarrow> new1 @ new \<noteq> [] \<and>
                client (sent @ butlast (new1 @ new)) (last (new1 @ new)) = Inl err"
        using new(3) n1eq rq n1(1) by (cases e) (auto simp: butlast_append)
    qed
  qed
qed

lemma answered_append:
  "answered client sent (xs @ ys) \<longleftrightarrow> answered client sent xs \<and> answered client (sent @ xs) ys"
  by (induction xs arbitrary: sent) auto

lemma embedBlocks_answered:
  "embedBlocks client bs sent = (e, bs', sent @ new) \<Longrightarrow>
     answered client sent (case e of None \<Rightarrow> new | Some err \<Rightarrow> butlast new)"
proof (induction bs arbitrary: sent e bs' new)
  case Nil
  then show ?case by simp
next
  case (Cons b bs)
  show ?case
  proof (cases "Code b = []")
    case True
    with Cons.prems obtain bs1 where "embedBlocks client bs sent = (e, bs1, sent @ new)"
      by (auto split: prod.splits)
    then show ?thesis by (rule Cons.IH)
  next
    case False
    let ?code = "if length (Code b) > 32000 then take 32000 (Code b) else Code b"
    show ?thesis
    proof (cases "client sent ?code")
      case (Inl err)
      with False Cons.prems have "e = Some err" "new = [?code]" by (auto simp: Let_def)
      then show ?thesis by simp
    next
      case (Inr data)
      from Inr False Cons.prems obtain bs1 where
        eb: "embedBlocks client bs (sent @ [?code]) = (e, bs1, sent @ new)"
        by (auto simp: Let_def split: prod.splits)
      from embedBlocks_sent[OF eb] obtain new' where n': "sent @ new = (sent @ [?code]) @ new'"
        and f: "case e of None \<Rightarrow> True | Some err \<Rightarrow> new' \<noteq> []"
        by (cases e) auto
      then have new: "new = ?code # new'" by simp
      from eb n' have "embedBlocks client bs (sent @ [?code]) = (e, bs1, (sent @ [?code]) @ new')"
        by simp
      from Cons.IH[OF this] f Inr show ?thesis unfolding new by (cases e) auto
    qed
  qed
qed

lemma embedContents_answered:
  "embedContents client cs sent = (e, cs', sent @ new) \<Longrightarrow>
     answered client sent (case e of None \<Rightarrow> new | Some err \<Rightarrow> butlast new)"
proof (induction cs arbitrary: sent e cs' new)
  case Nil
  then show ?case by simp
next
  case (Cons c cs)
  obtain e1 bs1 sent1 where b: "embedBlocks client (CodeBlocks c) sent = (e1, bs1, sent1)"
    by (cases "embedBlocks client (CodeBlocks c) sent") auto
  from embedBlocks_sent[OF b] obtain new1 where n1: "sent1 = sent @ new1" by blast
  from embedBlocks_answered[OF b[unfolded n1]]
  have a1: "answered client sent (case e1 of None \<Rightarrow> new1 | Some err \<Rightarrow> butlast new1)" .
  show ?case
  proof (cases e1)
    case (Some err)
    with b Cons.prems n1 have "e = Some err" "new = new1" by auto
    with a1 Some show ?thesis by simp
  next
    case None
    with b Cons.prems obtain cs1 where ec: "embedContents client cs sent1 = (e, cs1, sent @ new)"
      by (auto split: prod.splits)
    from embedContents_sent[OF ec] n1 obtain new2 where n2: "new = new1 @ new2"
      and f: "case e of None \<Rightarrow> True | Some err \<Rightarrow> new2 \<noteq> []"
      by (cases e) auto
    from ec n1 n2 have "embedContents client cs (sent @ new1) = (e, cs1, (sent @ new1) @ new2)"
      by simp
    from Cons.IH[OF this] a1 None f show ?thesis
      unfolding n2 by (cases e) (auto simp: answered_append butlast_append)
  qed
qed

lemma block_requests_single:
  "block_requests [b] = [r] \<longleftrightarrow>
     Code b \<noteq> [] \<and> r = (if length (Code b) > 32000 then take 32000 (Code b) else Code b)"
  by (auto simp: block_requests_def)

lemma block_requests_Cons:
  "block_requests (b # bs) = block_requests [b] @ block_requests bs"
  by (simp add: block_requests_def)

lemma embedBlocks_skip:
  "Code b = [] \<Longrightarrow>
     embedBlocks client (b # bs) sent
       = (case embedBlocks client bs sent of (e, bs', sent') \<Rightarrow> (e, b # bs', sent'))"
  by simp

lemma embedBlocks_error:
  "block_requests [b] = [r] \<Longrightarrow> client sent r = Inl err \<Longrightarrow>
     embedBlocks client (b # bs) sent = (Some err, b # bs, sent @ [r])"
  by (simp add: block_requests_single Let_def)

lemma embedBlocks_answer:
  "block_requests [b] = [r] \<Longrightarrow> client sent r = Inr data \<Longrightarrow>
     embedBlocks client (b # bs) sent
       = (case embedBlocks client bs (sent @ [r]) of
            (e, bs', sent') \<Rightarrow>
              (e, (if length data > 0 then b\<lparr>Embedding := Some (map float64 (hd data))\<rparr> else b) # bs',
               sent'))"
  by (simp add: block_requests_single Let_def)

lemma embedBlocks_append_None:
  "embedBlocks client bs1 sent = (None, bs1', sent1) \<Longrightarrow>
     embedBlocks client (bs1 @ bs2) sent
       = (case embedBlocks client bs2 sent1 of (e, bs2', sent2) \<Rightarrow> (e, bs1' @ bs2', sent2))"
proof (induction bs1 arbitrary: sent bs1' sent1)
  case Nil
  then show ?case by (simp split: prod.splits)
next
  case (Cons b bs)
  show ?case
  proof (cases "Code b = []")
    case True
    with Cons.prems obtain bs1 where eb: "embedBlocks client bs sent = (None, bs1, sent1)"
      and b1: "bs1' = b # bs1"
      by (auto split: prod.splits)
    from Cons.IH[OF eb] True b1 show ?thesis by (simp split: prod.splits)
  next
    case False
    let ?code = "if length (Code b) > 32000 then take 32000 (Code b) else Code b"
    show ?thesis
    proof (cases "client sent ?code")
      case (Inl err)
      with False Cons.prems show ?thesis by (simp add: Let_def)
    next
      case (Inr data)
      let ?b' = "if length data > 0 then b\<lparr>Embedding := Some (map float64 (hd data))\<rparr> else b"
      from Inr False Cons.prems obtain bs1 where
        eb: "embedBlocks client bs (sent @ [?code]) = (None, bs1, sent1)" and b1: "bs1' = ?b' # bs1"
        by (auto simp: Let_def split: prod.splits)
      from Cons.IH[OF eb] Inr False b1 show ?thesis
        by (simp add: Let_def split: prod.splits)
    qed
  qed
qed

lemma embedContents_append_None:
  "embedContents client cs1 sent = (None, cs1', sent1) \<Longrightarrow>
     embedContents client (cs1 @ cs2) sent
       = (case embedContents client cs2 sent1 of (e, cs2', sent2) \<Rightarrow> (e, cs1' @ cs2', sent2))"
proof (induction cs1 arbitrary: sent cs1' sent1)
  case Nil
  then show ?case by (simp split: prod.splits)
next
  case (Cons c cs)
  obtain e1 bs1 s1 where b: "embedBlocks client (CodeBlocks c) sent = (e1, bs1, s1)"
    by (cases "embedBlocks client (CodeBlocks c) sent") auto
  from b Cons.prems have e1: "e1 = None" by (cases e1) auto
  with b Cons.prems obtain cs1 where ec: "embedContents client cs s1 = (None, cs1, sent1)"
    and c1: "cs1' = c\<lparr>CodeBlocks := bs1\<rparr> # cs1"
    by (auto split: prod.splits)
  from Cons.IH[OF ec] b e1 c1 show ?case by (simp split: prod.splits)
qed

lemma embedBlocks_length:
  "embedBlocks client bs sent = (e, bs', sent') \<Longrightarrow> length bs' = length bs"
  using embedBlocks_frame[of client bs sent e bs' sent'] by (simp add: list_all2_lengthD)

lemma embedContents_length:
  "embedContents client cs sent = (e, cs', sent') \<Longrightarrow> length cs' = length cs"
  using embedContents_frame[of client cs sent e cs' sent'] by (simp add: list_all2_lengthD)

text \<open>The loops up to a failing request.\<close>

lemma embedContents_stops:
  assumes cs1: "embedContents client cs1 sent = (None, out1, sent1)"
    and bs1: "embedBlocks client bs1 sent1 = (None, bs1', sent2)"
    and b: "block_requests [b] = [r]" and r: "client sent2 r = Inl err"
  shows "embedContents client (cs1 @ c\<lparr>CodeBlocks := bs1 @ b # bs2\<rparr> # cs2) sent
           = (Some err, out1 @ c\<lparr>CodeBlocks := bs1' @ b # bs2\<rparr> # cs2, sent2 @ [r])"
proof -
  have "embedBlocks client (bs1 @ b # bs2) sent1 = (Some err, bs1' @ b # bs2, sent2 @ [r])"
    by (simp add: embedBlocks_append_None[OF bs1] embedBlocks_error[where client = client, OF b r]
             del: embedBlocks.simps)
  then have "embedContents client (c\<lparr>CodeBlocks := bs1 @ b # bs2\<rparr> # cs2) sent1
               = (Some err, c\<lparr>CodeBlocks := bs1' @ b # bs2\<rparr> # cs2, sent2 @ [r])"
    by (simp del: embedBlocks.simps)
  then show ?thesis
    by (simp add: embedContents_append_None[OF cs1] del: embedContents.simps)
qed

lemma embedContents_keeps:
  assumes cs1: "embedContents client cs1 sent = (None, out1, sent1)"
    and bs1: "embedBlocks client bs1 sent1 = (None, bs1', sent2)"
    and b: "block_requests [b] = [r]" and r: "client sent2 r = Inr data" and d: "data \<noteq> []"
    and run: "embedContents client (cs1 @ c\<lparr>CodeBlocks := bs1 @ b # bs2\<rparr> # cs2) sent
                = (e, store, sent')"
  shows "CodeBlocks (store ! length cs1) ! length bs1
           = b\<lparr>Embedding := Some (map float64 (hd data))\<rparr>"
proof -
  obtain e2 bs2' s2 where t: "embedBlocks client bs2 (sent2 @ [r]) = (e2, bs2', s2)"
    by (cases "embedBlocks client bs2 (sent2 @ [r])") auto
  let ?b' = "b\<lparr>Embedding := Some (map float64 (hd data))\<rparr>"
  have "embedBlocks client (b # bs2) sent2 = (e2, ?b' # bs2', s2)"
    using d by (simp add: embedBlocks_answer[where client = client, OF b r] t del: embedBlocks.simps)
  then have blocks: "embedBlocks client (bs1 @ b # bs2) sent1 = (e2, bs1' @ ?b' # bs2', s2)"
    by (simp add: embedBlocks_append_None[OF bs1] del: embedBlocks.simps)
  obtain e3 cs3 s3 where
    rec: "embedContents client (c\<lparr>CodeBlocks := bs1 @ b # bs2\<rparr> # cs2) sent1
            = (e3, c\<lparr>CodeBlocks := bs1' @ ?b' # bs2'\<rparr> # cs3, s3)"
    using blocks by (cases e2; cases "embedContents client cs2 s2") (simp_all del: embedBlocks.simps)
  from run have "store = out1 @ c\<lparr>CodeBlocks := bs1' @ ?b' # bs2'\<rparr> # cs3"
    by (simp add: embedContents_append_None[OF cs1] rec del: embedContents.simps)
  moreover have "length out1 = length cs1" using cs1 by (rule embedContents_length)
  moreover have "length bs1' = length bs1" using bs1 by (rule embedBlocks_length)
  ultimately show ?thesis by (simp add: nth_append)
qed

text \<open>A request that fails after the requests before it were answered ends the call.\<close>

lemma embedBlocks_fails:
  "prefix (pre @ [r]) (block_requests bs) \<Longrightarrow> answered client sent pre \<Longrightarrow>
   client (sent @ pre) r = Inl err \<Longrightarrow>
     \<exists>bs'. embedBlocks client bs sent = (Some err, bs', sent @ pre @ [r])"
proof (induction bs arbitrary: sent pre)
  case Nil
  then show ?case by (simp add: block_requests_def)
next
  case (Cons b bs)
  show ?case
  proof (cases "Code b = []")
    case True
    then have "block_requests (b # bs) = block_requests bs" by (simp add: block_requests_def)
    with Cons.prems Cons.IH[of pre sent] obtain bs' where
      "embedBlocks client bs sent = (Some err, bs', sent @ pre @ [r])" by auto
    with True show ?thesis by simp
  next
    case False
    let ?code = "if length (Code b) > 32000 then take 32000 (Code b) else Code b"
    have one: "block_requests [b] = [?code]" using False by (simp add: block_requests_def)
    have br: "block_requests (b # bs) = ?code # block_requests bs"
      using False by (simp add: block_requests_def)
    show ?thesis
    proof (cases pre)
      case Nil
      with Cons.prems br have "r = ?code" "client sent ?code = Inl err" by auto
      with embedBlocks_error[where client = client and sent = sent and err = err and bs = bs, OF one] Nil show ?thesis by simp
    next
      case (Cons q pre')
      with Cons.prems br have q: "q = ?code" and p': "prefix (pre' @ [r]) (block_requests bs)"
        by auto
      from Cons.prems(2) Cons q obtain data where
        a: "client sent ?code = Inr data" and a': "answered client (sent @ [?code]) pre'"
        by (auto split: sum.splits)
      from Cons.prems(3) Cons q have f: "client ((sent @ [?code]) @ pre') r = Inl err" by simp
      from Cons.IH[OF p' a' f] obtain bs' where
        "embedBlocks client bs (sent @ [?code]) = (Some err, bs', (sent @ [?code]) @ pre' @ [r])"
        by blast
      with embedBlocks_answer[where client = client and bs = bs, OF one a] Cons q show ?thesis by simp
    qed
  qed
qed

lemma embedBlocks_succeeds:
  "answered client sent (block_requests bs) \<Longrightarrow>
     \<exists>bs'. embedBlocks client bs sent = (None, bs', sent @ block_requests bs)"
proof (induction bs arbitrary: sent)
  case Nil
  then show ?case by (simp add: block_requests_def)
next
  case (Cons b bs)
  show ?case
  proof (cases "Code b = []")
    case True
    then have "block_requests (b # bs) = block_requests bs" by (simp add: block_requests_def)
    with Cons.prems Cons.IH[of sent] obtain bs' where
      "embedBlocks client bs sent = (None, bs', sent @ block_requests bs)" by auto
    with True \<open>block_requests (b # bs) = block_requests bs\<close> show ?thesis by simp
  next
    case False
    let ?code = "if length (Code b) > 32000 then take 32000 (Code b) else Code b"
    have one: "block_requests [b] = [?code]" using False by (simp add: block_requests_def)
    have br: "block_requests (b # bs) = ?code # block_requests bs"
      using False by (simp add: block_requests_def)
    from Cons.prems br obtain data where
      a: "client sent ?code = Inr data" and a': "answered client (sent @ [?code]) (block_requests bs)"
      by (auto split: sum.splits)
    from Cons.IH[OF a'] obtain bs' where
      "embedBlocks client bs (sent @ [?code]) = (None, bs', (sent @ [?code]) @ block_requests bs)"
      by blast
    with embedBlocks_answer[where client = client and bs = bs, OF one a] br show ?thesis by simp
  qed
qed

lemma embedContents_fails:
  "prefix (pre @ [r]) (requests cs) \<Longrightarrow> answered client sent pre \<Longrightarrow>
   client (sent @ pre) r = Inl err \<Longrightarrow>
     \<exists>cs'. embedContents client cs sent = (Some err, cs', sent @ pre @ [r])"
proof (induction cs arbitrary: sent pre)
  case Nil
  then show ?case by (simp add: requests_def)
next
  case (Cons c cs)
  let ?A = "block_requests (CodeBlocks c)"
  have rq: "requests (c # cs) = ?A @ requests cs" by (simp add: requests_def)
  from Cons.prems(1) rq have
    "prefix (pre @ [r]) ?A \<or> (\<exists>us. pre @ [r] = ?A @ us \<and> prefix us (requests cs))"
    by (simp add: prefix_append)
  then consider (here) "prefix (pre @ [r]) ?A"
    | (later) us where "pre @ [r] = ?A @ us" "prefix us (requests cs)" "us \<noteq> []"
    by (metis append_Nil2 prefix_order.order_refl)
  then show ?case
  proof cases
    case here
    from embedBlocks_fails[OF here Cons.prems(2,3)] obtain bs' where
      "embedBlocks client (CodeBlocks c) sent = (Some err, bs', sent @ pre @ [r])" by blast
    then show ?thesis by simp
  next
    case later
    from later(3) obtain pre' r' where us: "us = pre' @ [r']" by (metis rev_exhaust)
    with later(1) have pre: "pre = ?A @ pre'" and r': "r' = r" by auto
    from Cons.prems(2) pre have a1: "answered client sent ?A"
      and a2: "answered client (sent @ ?A) pre'" by (simp_all add: answered_append)
    from embedBlocks_succeeds[OF a1] obtain bs' where
      b: "embedBlocks client (CodeBlocks c) sent = (None, bs', sent @ ?A)" by blast
    from later(2) us r' have p': "prefix (pre' @ [r]) (requests cs)" by simp
    from Cons.prems(3) pre have f: "client ((sent @ ?A) @ pre') r = Inl err" by simp
    from Cons.IH[OF p' a2 f] obtain cs' where
      "embedContents client cs (sent @ ?A) = (Some err, cs', (sent @ ?A) @ pre' @ [r])" by blast
    with b pre show ?thesis by simp
  qed
qed

lemma CreateEmbeddings_Inr:
  "CreateEmbeddings client cs = (Inr out, store, sent)
     \<longleftrightarrow> embedContents client cs [] = (None, store, sent) \<and> out = store"
  by (auto simp: CreateEmbeddings_def split: prod.splits option.splits)

lemma CreateEmbeddings_Inl:
  "CreateEmbeddings client cs = (Inl err, store, sent)
     \<longleftrightarrow> embedContents client cs [] = (Some err, store, sent)"
  by (auto simp: CreateEmbeddings_def split: prod.splits option.splits)

text \<open>
  C7 (as amended). When a request fails after the requests before it were answered,
  \<open>CreateEmbeddings\<close> stops there and returns the error and no records: that request is
  the last one sent. Conversely, when the call returns an error, the last request sent
  is one that failed with that error, every request before it was answered, and the
  requests sent are an initial part of the one request per block with code, in order,
  so none is sent twice. The records are annotated in place, however. When the request
  of a block fails, the caller's slice holds the records before it as a successful call
  on them leaves them, the blocks before it in its record as the loop over them leaves
  them, and the failing block and everything after it as they were. And when the call
  ends with an error, a block whose request was answered with a vector carries that
  vector: it is not rolled back.
\<close>

theorem CreateEmbeddings_failure:
  "(prefix (pre @ [r]) (requests contents) \<and> answered client [] pre \<and> client pre r = Inl err
      \<longrightarrow> (\<exists>store. CreateEmbeddings client contents = (Inl err, store, pre @ [r]))) \<and>
   (CreateEmbeddings client contents = (Inl err, store, sent) \<longrightarrow>
      sent \<noteq> [] \<and> client (butlast sent) (last sent) = Inl err \<and>
      answered client [] (butlast sent) \<and> prefix sent (requests contents) \<and>
      list_all2 same_record contents store) \<and>
   (CreateEmbeddings client cs1 = (Inr out1, out1, sent1) \<and>
    embedBlocks client bs1 sent1 = (None, bs1', sent2) \<and>
    block_requests [b] = [q] \<and> client sent2 q = Inl err
      \<longrightarrow> CreateEmbeddings client (cs1 @ c\<lparr>CodeBlocks := bs1 @ b # bs2\<rparr> # cs2)
            = (Inl err, out1 @ c\<lparr>CodeBlocks := bs1' @ b # bs2\<rparr> # cs2, sent2 @ [q])) \<and>
   (CreateEmbeddings client cs1 = (Inr out1, out1, sent1) \<and>
    embedBlocks client bs1 sent1 = (None, bs1', sent2) \<and>
    block_requests [b] = [q] \<and> client sent2 q = Inr data \<and> data \<noteq> [] \<and>
    CreateEmbeddings client (cs1 @ c\<lparr>CodeBlocks := bs1 @ b # bs2\<rparr> # cs2) = (Inl err, kept, sent')
      \<longrightarrow> CodeBlocks (kept ! length cs1) ! length bs1
            = b\<lparr>Embedding := Some (map float64 (hd data))\<rparr>)"
proof -
  have fwd: "prefix (pre @ [r]) (requests contents) \<and> answered client [] pre \<and>
      client pre r = Inl err
      \<longrightarrow> (\<exists>store. CreateEmbeddings client contents = (Inl err, store, pre @ [r]))"
    using embedContents_fails[of pre r contents client "[]" err]
    by (auto simp: CreateEmbeddings_Inl)
  have bwd: "CreateEmbeddings client contents = (Inl err, store, sent) \<longrightarrow>
      sent \<noteq> [] \<and> client (butlast sent) (last sent) = Inl err \<and>
      answered client [] (butlast sent) \<and> prefix sent (requests contents) \<and>
      list_all2 same_record contents store"
  proof
    assume "CreateEmbeddings client contents = (Inl err, store, sent)"
    then have e: "embedContents client contents [] = (Some err, store, sent)"
      by (simp add: CreateEmbeddings_Inl)
    from embedContents_sent[OF e] have "sent \<noteq> []" "client (butlast sent) (last sent) = Inl err"
      "prefix sent (requests contents)" by auto
    moreover from embedContents_answered[of client contents "[]" "Some err" store sent] e
    have "answered client [] (butlast sent)" by simp
    moreover from embedContents_frame[OF e] have "list_all2 same_record contents store" .
    ultimately show "sent \<noteq> [] \<and> client (butlast sent) (last sent) = Inl err \<and>
      answered client [] (butlast sent) \<and> prefix sent (requests contents) \<and>
      list_all2 same_record contents store" by simp
  qed
  have stop: "CreateEmbeddings client cs1 = (Inr out1, out1, sent1) \<and>
    embedBlocks client bs1 sent1 = (None, bs1', sent2) \<and>
    block_requests [b] = [q] \<and> client sent2 q = Inl err
      \<longrightarrow> CreateEmbeddings client (cs1 @ c\<lparr>CodeBlocks := bs1 @ b # bs2\<rparr> # cs2)
            = (Inl err, out1 @ c\<lparr>CodeBlocks := bs1' @ b # bs2\<rparr> # cs2, sent2 @ [q])"
  proof (intro impI, elim conjE)
    assume a: "CreateEmbeddings client cs1 = (Inr out1, out1, sent1)"
      and bb: "embedBlocks client bs1 sent1 = (None, bs1', sent2)"
      and q: "block_requests [b] = [q]" and f: "client sent2 q = Inl err"
    from a have e: "embedContents client cs1 [] = (None, out1, sent1)"
      by (simp add: CreateEmbeddings_Inr)
    from embedContents_stops[where client = client, OF e bb q f]
    show "CreateEmbeddings client (cs1 @ c\<lparr>CodeBlocks := bs1 @ b # bs2\<rparr> # cs2)
            = (Inl err, out1 @ c\<lparr>CodeBlocks := bs1' @ b # bs2\<rparr> # cs2, sent2 @ [q])"
      by (simp add: CreateEmbeddings_Inl del: embedContents.simps embedBlocks.simps)
  qed
  have keep: "CreateEmbeddings client cs1 = (Inr out1, out1, sent1) \<and>
    embedBlocks client bs1 sent1 = (None, bs1', sent2) \<and>
    block_requests [b] = [q] \<and> client sent2 q = Inr data \<and> data \<noteq> [] \<and>
    CreateEmbeddings client (cs1 @ c\<lparr>CodeBlocks := bs1 @ b # bs2\<rparr> # cs2) = (Inl err, kept, sent')
      \<longrightarrow> CodeBlocks (kept ! length cs1) ! length bs1
            = b\<lparr>Embedding := Some (map float64 (hd data))\<rparr>"
  proof (intro impI, elim conjE)
    assume a: "CreateEmbeddings client cs1 = (Inr out1, out1, sent1)"
      and bb: "embedBlocks client bs1 sent1 = (None, bs1', sent2)"
      and q: "block_requests [b] = [q]" and f: "client sent2 q = Inr data" and d: "data \<noteq> []"
      and run: "CreateEmbeddings client (cs1 @ c\<lparr>CodeBlocks := bs1 @ b # bs2\<rparr> # cs2)
                  = (Inl err, kept, sent')"
    from a have e: "embedContents client cs1 [] = (None, out1, sent1)"
      by (simp add: CreateEmbeddings_Inr)
    from run have r: "embedContents client (cs1 @ c\<lparr>CodeBlocks := bs1 @ b # bs2\<rparr> # cs2) []
                        = (Some err, kept, sent')"
      by (simp add: CreateEmbeddings_Inl)
    from embedContents_keeps[where client = client, OF e bb q f d r]
    show "CodeBlocks (kept ! length cs1) ! length bs1
            = b\<lparr>Embedding := Some (map float64 (hd data))\<rparr>" .
  qed
  show ?thesis by (intro conjI fwd bwd stop keep)
qed

theorem CreateEmbeddings_failure_witness:
  "prefix ([''a''] @ [''b''])
     (requests [\<lparr>Title = ''t'', Description = ''d'', Source = ''s.go'', Content = ''ab'',
       CodeBlocks = [\<lparr>Language = ''go'', Code = ''a'', Embedding = None\<rparr>,
                     \<lparr>Language = ''go'', Code = ''b'', Embedding = None\<rparr>],
       Type = ''code''\<rparr>]) \<and>
   answered (\<lambda>sent code. if code = ''a'' then Inr [[1]] else Inl RemoteError) [] [''a''] \<and>
   (if ''b'' = ''a'' then Inr [[1::real]] else Inl RemoteError) = Inl RemoteError \<and>
   CreateEmbeddings (\<lambda>sent code. if code = ''a'' then Inr [[1]] else Inl RemoteError)
     [\<lparr>Title = ''t'', Description = ''d'', Source = ''s.go'', Content = ''ab'',
       CodeBlocks = [\<lparr>Language = ''go'', Code = ''a'', Embedding = None\<rparr>,
                     \<lparr>Language = ''go'', Code = ''b'', Embedding = None\<rparr>],
       Type = ''code''\<rparr>]
     = (Inl RemoteError,
        [\<lparr>Title = ''t'', Description = ''d'', Source = ''s.go'', Content = ''ab'',
          CodeBlocks = [\<lparr>Language = ''go'', Code = ''a'', Embedding = Some [1]\<rparr>,
                        \<lparr>Language = ''go'', Code = ''b'', Embedding = None\<rparr>],
          Type = ''code''\<rparr>],
        [''a'', ''b'']) \<and>
   CreateEmbeddings (\<lambda>sent code. if code = ''a'' then Inr [[1]] else Inl RemoteError) []
     = (Inr [], [], []) \<and>
   embedBlocks (\<lambda>sent code. if code = ''a'' then Inr [[1]] else Inl RemoteError)
     [\<lparr>Language = ''go'', Code = ''a'', Embedding = None\<rparr>] []
     = (None, [\<lparr>Language = ''go'', Code = ''a'', Embedding = Some [1]\<rparr>], [''a'']) \<and>
   block_requests [\<lparr>Language = ''go'', Code = ''b'', Embedding = None\<rparr>] = [''b''] \<and>
   block_requests [\<lparr>Language = ''go'', Code = ''a'', Embedding = None\<rparr>] = [''a''] \<and>
   [[1::real]] \<noteq> [] \<and>
   (\<exists>store. CreateEmbeddings (\<lambda>sent code. if code = ''a'' then Inr [[1]] else Inl RemoteError)
     [\<lparr>Title = ''t'', Description = ''d'', Source = ''s.go'', Content = ''ab'',
       CodeBlocks = [\<lparr>Language = ''go'', Code = ''a'', Embedding = None\<rparr>,
                     \<lparr>Language = ''go'', Code = ''b'', Embedding = None\<rparr>],
       Type = ''code''\<rparr>]
     = (Inl RemoteError, store, [''a''] @ [''b''])) \<and>
   list_all2 same_record
     [\<lparr>Title = ''t'', Description = ''d'', Source = ''s.go'', Content = ''ab'',
       CodeBlocks = [\<lparr>Language = ''go'', Code = ''a'', Embedding = None\<rparr>,
                     \<lparr>Language = ''go'', Code = ''b'', Embedding = None\<rparr>],
       Type = ''code''\<rparr>]
     [\<lparr>Title = ''t'', Description = ''d'', Source = ''s.go'', Content = ''ab'',
       CodeBlocks = [\<lparr>Language = ''go'', Code = ''a'', Embedding = Some [1]\<rparr>,
                     \<lparr>Language = ''go'', Code = ''b'', Embedding = None\<rparr>],
       Type = ''code''\<rparr>] \<and>
   CodeBlocks ([\<lparr>Title = ''t'', Description = ''d'', Source = ''s.go'', Content = ''ab'',
          CodeBlocks = [\<lparr>Language = ''go'', Code = ''a'', Embedding = Some [1]\<rparr>,
                        \<lparr>Language = ''go'', Code = ''b'', Embedding = None\<rparr>],
          Type = ''code''\<rparr>] ! 0) ! 0
     = \<lparr>Language = ''go'', Code = ''a'', Embedding = Some [1]\<rparr>"
proof -
  let ?client = "\<lambda>sent code. if code = ''a'' then Inr [[1::real]] else Inl RemoteError"
  let ?a = "\<lparr>Language = ''go'', Code = ''a'', Embedding = None\<rparr>"
  let ?a' = "\<lparr>Language = ''go'', Code = ''a'', Embedding = Some [1::real]\<rparr>"
  let ?b = "\<lparr>Language = ''go'', Code = ''b'', Embedding = None\<rparr>"
  let ?c = "\<lparr>Title = ''t'', Description = ''d'', Source = ''s.go'', Content = ''ab'',
             CodeBlocks = [?a, ?b], Type = ''code''\<rparr>"
  let ?c' = "\<lparr>Title = ''t'', Description = ''d'', Source = ''s.go'', Content = ''ab'',
              CodeBlocks = [?a', ?b], Type = ''code''\<rparr>"
  note stop = CreateEmbeddings_failure[where client = ?client and contents = "[?c]"
      and pre = "[''a'']" and r = "''b''" and err = RemoteError and store = "[?c']"
      and sent = "[''a'', ''b'']" and ?cs1.0 = "[]" and ?out1.0 = "[]" and ?sent1.0 = "[]"
      and ?bs1.0 = "[?a]" and bs1' = "[?a']" and ?sent2.0 = "[''a'']" and b = ?b
      and q = "''b''" and c = ?c and ?bs2.0 = "[]" and ?cs2.0 = "[]"]
  note keep = CreateEmbeddings_failure[where client = ?client and err = RemoteError
      and ?cs1.0 = "[]" and ?out1.0 = "[]" and ?sent1.0 = "[]"
      and ?bs1.0 = "[]" and bs1' = "[]" and ?sent2.0 = "[]" and b = ?a
      and q = "''a''" and data = "[[1]]" and c = ?c and ?bs2.0 = "[?b]" and ?cs2.0 = "[]"
      and kept = "[?c']" and sent' = "[''a'', ''b'']"]
  have pre: "prefix ([''a''] @ [''b'']) (requests [?c])"
    by (simp add: requests_def block_requests_def)
  have ans: "answered ?client [] [''a'']" by simp
  have err: "(if ''b'' = ''a'' then Inr [[1::real]] else Inl RemoteError) = Inl RemoteError"
    by simp
  have none: "CreateEmbeddings ?client [] = (Inr [], [], [])"
    by (simp add: CreateEmbeddings_def)
  have first: "embedBlocks ?client [?a] [] = (None, [?a'], [''a''])"
    by (simp add: float64_def Let_def)
  have rb: "block_requests [?b] = [''b'']" by (simp add: block_requests_def)
  have ra: "block_requests [?a] = [''a'']" by (simp add: block_requests_def)
  have dat: "[[1::real]] \<noteq> []" by simp
  from stop[THEN conjunct2, THEN conjunct2, THEN conjunct1] none first rb
  have run: "CreateEmbeddings ?client [?c] = (Inl RemoteError, [?c'], [''a'', ''b''])"
    by simp
  from keep[THEN conjunct2, THEN conjunct2, THEN conjunct2] none ra run
  have kept: "CodeBlocks ([?c'] ! 0) ! 0 = ?a'"
    by (simp add: float64_def CreateEmbeddings_def)
  from stop[THEN conjunct1] pre ans err
  have fwd: "\<exists>store. CreateEmbeddings ?client [?c] = (Inl RemoteError, store, [''a''] @ [''b''])"
    by simp
  from stop[THEN conjunct2, THEN conjunct1] run
  have frame: "list_all2 same_record [?c] [?c']" by simp
  show ?thesis by (intro conjI pre ans err run none first rb ra dat fwd frame kept)
qed

text \<open>
  The claim as stated fails in "state unchanged on error": when the request for the
  second of two blocks fails, the first block of the caller's record already carries its
  embedding.
\<close>

theorem CreateEmbeddings_partial_annotation_counterexample:
  "CreateEmbeddings (\<lambda>sent code. if code = ''a'' then Inr [[1]] else Inl RemoteError)
     [\<lparr>Title = ''t'', Description = ''d'', Source = ''s.go'', Content = ''ab'',
       CodeBlocks = [\<lparr>Language = ''go'', Code = ''a'', Embedding = None\<rparr>,
                     \<lparr>Language = ''go'', Code = ''b'', Embedding = None\<rparr>],
       Type = ''code''\<rparr>]
     = (Inl RemoteError,
        [\<lparr>Title = ''t'', Description = ''d'', Source = ''s.go'', Content = ''ab'',
          CodeBlocks = [\<lparr>Language = ''go'', Code = ''a'', Embedding = Some [1]\<rparr>,
                        \<lparr>Language = ''go'', Code = ''b'', Embedding = None\<rparr>],
          Type = ''code''\<rparr>],
        [''a'', ''b''])"
  by (simp add: CreateEmbeddings_def float64_def Let_def)

text \<open>
  C8. When \<open>CreateEmbeddings\<close> succeeds, it returns the slice it was given: as many
  records, in the same order, each equal to the input record in every field but the
  embeddings of its blocks; a block whose code is empty keeps the embedding field it had,
  so it has none after the call if it had none before. One request was sent for each
  block with code, and each was answered.
\<close>

theorem CreateEmbeddings_success:
  "CreateEmbeddings client contents = (Inr out, store, sent) \<longrightarrow>
     out = store \<and> length out = length contents \<and> list_all2 same_record contents out \<and>
     (\<forall>i j. i < length contents \<and> j < length (CodeBlocks (contents ! i)) \<and>
            Code (CodeBlocks (contents ! i) ! j) = [] \<and>
            Embedding (CodeBlocks (contents ! i) ! j) = None
        \<longrightarrow> Code (CodeBlocks (out ! i) ! j) = [] \<and>
            Embedding (CodeBlocks (out ! i) ! j) = None) \<and>
     sent = requests contents \<and> answered client [] sent"
proof
  assume a: "CreateEmbeddings client contents = (Inr out, store, sent)"
  then have e: "embedContents client contents [] = (None, store, sent)" and o: "out = store"
    by (auto simp: CreateEmbeddings_def split: prod.splits option.splits)
  from embedContents_frame[OF e] o have fr: "list_all2 same_record contents out" by simp
  then have len: "length out = length contents" by (simp add: list_all2_lengthD)
  have empty: "\<forall>i j. i < length contents \<and> j < length (CodeBlocks (contents ! i)) \<and>
            Code (CodeBlocks (contents ! i) ! j) = [] \<and>
            Embedding (CodeBlocks (contents ! i) ! j) = None
        \<longrightarrow> Code (CodeBlocks (out ! i) ! j) = [] \<and>
            Embedding (CodeBlocks (out ! i) ! j) = None"
  proof (intro allI impI, elim conjE)
    fix i j
    assume i: "i < length contents" and j: "j < length (CodeBlocks (contents ! i))"
      and c: "Code (CodeBlocks (contents ! i) ! j) = []"
      and m: "Embedding (CodeBlocks (contents ! i) ! j) = None"
    from fr i have "same_record (contents ! i) (out ! i)" by (simp add: list_all2_nthD)
    then have "list_all2 same_block (CodeBlocks (contents ! i)) (CodeBlocks (out ! i))"
      by (simp add: same_record_def)
    with j have "same_block (CodeBlocks (contents ! i) ! j) (CodeBlocks (out ! i) ! j)"
      by (simp add: list_all2_nthD)
    with c m show "Code (CodeBlocks (out ! i) ! j) = [] \<and>
            Embedding (CodeBlocks (out ! i) ! j) = None"
      by (simp add: same_block_def)
  qed
  from embedContents_sent[OF e] have s: "sent = requests contents" by simp
  from embedContents_answered[of client contents "[]" None store sent] e
  have an: "answered client [] sent" by simp
  show "out = store \<and> length out = length contents \<and> list_all2 same_record contents out \<and>
     (\<forall>i j. i < length contents \<and> j < length (CodeBlocks (contents ! i)) \<and>
            Code (CodeBlocks (contents ! i) ! j) = [] \<and>
            Embedding (CodeBlocks (contents ! i) ! j) = None
        \<longrightarrow> Code (CodeBlocks (out ! i) ! j) = [] \<and>
            Embedding (CodeBlocks (out ! i) ! j) = None) \<and>
     sent = requests contents \<and> answered client [] sent"
    by (intro conjI o len fr empty s an)
qed

theorem CreateEmbeddings_success_witness:
  "CreateEmbeddings (\<lambda>sent code. Inr [[1, 2]])
     [\<lparr>Title = ''t'', Description = ''d'', Source = ''a.md'', Content = ''x'',
       CodeBlocks = [\<lparr>Language = ''go'', Code = ''x'', Embedding = None\<rparr>,
                     \<lparr>Language = ''text'', Code = [], Embedding = None\<rparr>],
       Type = ''markdown''\<rparr>,
      \<lparr>Title = ''u'', Description = ''e'', Source = ''b.py'', Content = ''y'',
       CodeBlocks = [\<lparr>Language = ''python'', Code = ''y'', Embedding = None\<rparr>],
       Type = ''code''\<rparr>]
     = (Inr [\<lparr>Title = ''t'', Description = ''d'', Source = ''a.md'', Content = ''x'',
              CodeBlocks = [\<lparr>Language = ''go'', Code = ''x'', Embedding = Some [1, 2]\<rparr>,
                            \<lparr>Language = ''text'', Code = [], Embedding = None\<rparr>],
              Type = ''markdown''\<rparr>,
             \<lparr>Title = ''u'', Description = ''e'', Source = ''b.py'', Content = ''y'',
              CodeBlocks = [\<lparr>Language = ''python'', Code = ''y'', Embedding = Some [1, 2]\<rparr>],
              Type = ''code''\<rparr>],
        [\<lparr>Title = ''t'', Description = ''d'', Source = ''a.md'', Content = ''x'',
              CodeBlocks = [\<lparr>Language = ''go'', Code = ''x'', Embedding = Some [1, 2]\<rparr>,
                            \<lparr>Language = ''text'', Code = [], Embedding = None\<rparr>],
              Type = ''markdown''\<rparr>,
             \<lparr>Title = ''u'', Description = ''e'', Source = ''b.py'', Content = ''y'',
              CodeBlocks = [\<lparr>Language = ''python'', Code = ''y'', Embedding = Some [1, 2]\<rparr>],
              Type = ''code''\<rparr>],
        [''x'', ''y'']) \<and>
   requests
     [\<lparr>Title = ''t'', Description = ''d'', Source = ''a.md'', Content = ''x'',
       CodeBlocks = [\<lparr>Language = ''go'', Code = ''x'', Embedding = None\<rparr>,
                     \<lparr>Language = ''text'', Code = [], Embedding = None\<rparr>],
       Type = ''markdown''\<rparr>,
      \<lparr>Title = ''u'', Description = ''e'', Source = ''b.py'', Content = ''y'',
       CodeBlocks = [\<lparr>Language = ''python'', Code = ''y'', Embedding = None\<rparr>],
       Type = ''code''\<rparr>] = [''x'', ''y'']"
proof -
  let ?client = "\<lambda>sent code. Inr [[1::real, 2]] :: embed_error + real list list"
  let ?contents = "[\<lparr>Title = ''t'', Description = ''d'', Source = ''a.md'', Content = ''x'',
       CodeBlocks = [\<lparr>Language = ''go'', Code = ''x'', Embedding = None\<rparr>,
                     \<lparr>Language = ''text'', Code = [], Embedding = None\<rparr>],
       Type = ''markdown''\<rparr>,
      \<lparr>Title = ''u'', Description = ''e'', Source = ''b.py'', Content = ''y'',
       CodeBlocks = [\<lparr>Language = ''python'', Code = ''y'', Embedding = None\<rparr>],
       Type = ''code''\<rparr>]"
  let ?out = "[\<lparr>Title = ''t'', Description = ''d'', Source = ''a.md'', Content = ''x'',
              CodeBlocks = [\<lparr>Language = ''go'', Code = ''x'', Embedding = Some [1, 2]\<rparr>,
                            \<lparr>Language = ''text'', Code = [], Embedding = None\<rparr>],
              Type = ''markdown''\<rparr>,
             \<lparr>Title = ''u'', Description = ''e'', Source = ''b.py'', Content = ''y'',
              CodeBlocks = [\<lparr>Language = ''python'', Code = ''y'', Embedding = Some [1, 2]\<rparr>],
              Type = ''code''\<rparr>]"
  have run: "CreateEmbeddings ?client ?contents = (Inr ?out, ?out, [''x'', ''y''])"
    by (simp add: CreateEmbeddings_def float64_def Let_def)
  from CreateEmbeddings_success[of ?client ?contents ?out ?out "[''x'', ''y'']"] run
  show ?thesis by simp
qed

end
